theory Spec2Isabelle
  imports Complex_Main "HOL-Library.While_Combinator" "HOL-Library.AList" "HOL-Library.Multiset"
    "HOL-Library.Char_ord" "HOL-Library.List_Lexorder" "HOL-Library.Product_Lexorder"
begin

section \<open>Data model of src/app.py\<close>

text \<open>
  The dataclass \<open>Process\<close> (app.py, lines 14-19). Python integers are unbounded, so the
  numeric fields are \<open>int\<close>.
\<close>

record process =
  pid :: string
  arrival :: int
  burst :: int
  priority :: int

text \<open>
  The schedulers return three lists of dictionaries with fixed keys: the Gantt segments
  \<open>{"pid", "start", "finish"}\<close>, the result rows
  \<open>{"pid", "AT", "BT", "CT", "TAT", "WT"}\<close> (wrapped in a DataFrame) and the per-unit
  timeline \<open>{"time", "running"}\<close>. Each dictionary shape is a record.
\<close>

record segment =
  seg_pid :: string
  seg_start :: int
  seg_finish :: int

record result_row =
  row_pid :: string
  AT :: int
  BT :: int
  CT :: int
  TAT :: int
  WT :: int

record timeline_unit =
  tl_time :: int
  running :: string

definition IDLE :: string where
  "IDLE = ''IDLE''"

text \<open>\<open>[{"time": t, "running": who} for t in range(a, b)]\<close>\<close>

definition units :: "string \<Rightarrow> int \<Rightarrow> int \<Rightarrow> timeline_unit list" where
  "units who a b = map (\<lambda>t. \<lparr>tl_time = t, running = who\<rparr>) [a..b - 1]"

text \<open>The row appended to \<open>results\<close> by every scheduler for process \<open>p\<close> completing at \<open>ct\<close>.\<close>

definition make_row :: "process \<Rightarrow> int \<Rightarrow> result_row" where
  "make_row p ct =
     (let tat = ct - arrival p; wt = tat - burst p
      in \<lparr>row_pid = pid p, AT = arrival p, BT = burst p, CT = ct, TAT = tat, WT = wt\<rparr>)"

section \<open>FCFS (app.py, lines 65-94)\<close>

text \<open>
  The local variables of the scheduling loops. \<open>clock\<close> is the variable \<open>time\<close> of the
  source. The SRTF loop has only the clock and the timeline in common with the other two,
  so these form the base record and the loops extend it.
\<close>

record run_state =
  clock :: int
  timeline :: "timeline_unit list"

record sched_state = run_state +
  gantt :: "segment list"
  results :: "result_row list"

definition sched_init :: sched_state where
  "sched_init = \<lparr>clock = 0, timeline = [], gantt = [], results = []\<rparr>"

text \<open>One pass of the body of \<open>for p in procs\<close>.\<close>

definition fcfs_step :: "process \<Rightarrow> sched_state \<Rightarrow> sched_state" where
  "fcfs_step p s =
     (let start = max (clock s) (arrival p);
          tl1 = (if start > clock s then timeline s @ units IDLE (clock s) start
                 else timeline s);
          finish = start + burst p
      in \<lparr>clock = finish,
          timeline = tl1 @ units (pid p) start finish,
          gantt = gantt s @ [\<lparr>seg_pid = pid p, seg_start = start, seg_finish = finish\<rparr>],
          results = results s @ [make_row p finish]\<rparr>)"

definition fcfs_scheduler ::
  "process list \<Rightarrow> segment list \<times> result_row list \<times> timeline_unit list" where
  "fcfs_scheduler proc_list =
     (if proc_list = [] then ([], [], [])
      else let procs = sort_key arrival proc_list;
               s = fold fcfs_step procs sched_init
           in (gantt s, results s, timeline s))"

section \<open>SJF, non-preemptive (app.py, lines 96-134)\<close>

record sjf_state = sched_state +
  remaining :: "process list"
  ready :: "process list"

text \<open>
  The inner loop \<open>while remaining and remaining[0].arrival <= time:
  ready.append(remaining.pop(0))\<close>; it returns the new \<open>remaining\<close> and \<open>ready\<close>.
\<close>

fun move_arrived :: "int \<Rightarrow> process list \<Rightarrow> process list \<Rightarrow> process list \<times> process list" where
  "move_arrived t [] rdy = ([], rdy)"
| "move_arrived t (p # rest) rdy =
     (if arrival p \<le> t then move_arrived t rest (rdy @ [p]) else (p # rest, rdy))"

text \<open>
  One pass of the body of \<open>while remaining or ready\<close>. In the branch \<open>if not ready\<close> the
  source tests \<open>if remaining\<close> before it reads \<open>remaining[0]\<close>, and \<open>ready.pop(0)\<close> is
  reached only with \<open>ready\<close> non-empty, so \<open>hd\<close> and \<open>tl\<close> are applied to non-empty lists.
\<close>

definition sjf_step :: "sjf_state \<Rightarrow> sjf_state" where
  "sjf_step s =
     (let (remaining1, ready1) = move_arrived (clock s) (remaining s) (ready s)
      in if ready1 = [] then
           (if remaining1 \<noteq> [] then
              s\<lparr>clock := arrival (hd remaining1),
                timeline := timeline s @ units IDLE (clock s) (arrival (hd remaining1)),
                remaining := remaining1, ready := ready1\<rparr>
            else s\<lparr>remaining := remaining1, ready := ready1\<rparr>)
         else
           (let sorted_ready = sort_key burst ready1;
                p = hd sorted_ready;
                start = clock s;
                finish = start + burst p
            in s\<lparr>clock := finish,
                 timeline := timeline s @ units (pid p) start finish,
                 gantt := gantt s @ [\<lparr>seg_pid = pid p, seg_start = start, seg_finish = finish\<rparr>],
                 results := results s @ [make_row p finish],
                 remaining := remaining1, ready := tl sorted_ready\<rparr>))"

definition sjf_cond :: "sjf_state \<Rightarrow> bool" where
  "sjf_cond s \<longleftrightarrow> remaining s \<noteq> [] \<or> ready s \<noteq> []"

definition sjf_measure :: "sjf_state \<Rightarrow> nat" where
  "sjf_measure s =
     2 * (length (remaining s) + length (ready s)) +
     (if ready s = [] \<and> (remaining s \<noteq> [] \<longrightarrow> clock s < arrival (hd (remaining s)))
      then 1 else 0)"

lemma move_arrived_length:
  "move_arrived t rem rdy = (rem', rdy') \<Longrightarrow>
     length rem' + length rdy' = length rem + length rdy"
  by (induction t rem rdy rule: move_arrived.induct) (auto split: if_splits)

lemma move_arrived_ready_Nil:
  "move_arrived t rem rdy = (rem', []) \<Longrightarrow>
     rdy = [] \<and> rem' = rem \<and> (rem \<noteq> [] \<longrightarrow> t < arrival (hd rem))"
  by (induction t rem rdy rule: move_arrived.induct) (auto split: if_splits)

lemma sjf_step_decreases: "sjf_cond s \<Longrightarrow> sjf_measure (sjf_step s) < sjf_measure s"
proof -
  assume c: "sjf_cond s"
  obtain rem' rdy' where m: "move_arrived (clock s) (remaining s) (ready s) = (rem', rdy')"
    by (cases "move_arrived (clock s) (remaining s) (ready s)")
  note len = move_arrived_length [OF m]
  show ?thesis
  proof (cases "rdy' = []")
    case True
    with m have e: "ready s = []" "rem' = remaining s"
      "remaining s \<noteq> [] \<longrightarrow> clock s < arrival (hd (remaining s))"
      using move_arrived_ready_Nil by blast+
    with c have ne: "remaining s \<noteq> []" by (simp add: sjf_cond_def)
    show ?thesis using m True e ne
      by (simp add: sjf_step_def sjf_measure_def)
  next
    case False
    define n where "n = length rdy'"
    from False have n: "0 < n" by (simp add: n_def)
    have st: "remaining (sjf_step s) = rem'" "length (ready (sjf_step s)) = n - 1"
      using m False by (simp_all add: sjf_step_def Let_def n_def)
    have "sjf_measure (sjf_step s) \<le> 2 * (length rem' + (n - 1)) + 1"
      unfolding sjf_measure_def st by simp
    moreover have "2 * (length rem' + n) \<le> sjf_measure s"
      using len by (simp add: sjf_measure_def n_def)
    ultimately show ?thesis using n by arith
  qed
qed

function sjf_loop :: "sjf_state \<Rightarrow> sjf_state" where
  "sjf_loop s = (if sjf_cond s then sjf_loop (sjf_step s) else s)"
  by pat_completeness auto
termination
  by (relation "measure sjf_measure") (simp_all add: sjf_step_decreases)

declare sjf_loop.simps [simp del]

definition sjf_init :: "process list \<Rightarrow> sjf_state" where
  "sjf_init procs =
     \<lparr>clock = 0, timeline = [], gantt = [], results = [], remaining = procs, ready = []\<rparr>"

definition sjf_nonpreemptive_scheduler ::
  "process list \<Rightarrow> segment list \<times> result_row list \<times> timeline_unit list" where
  "sjf_nonpreemptive_scheduler proc_list =
     (if proc_list = [] then ([], [], [])
      else let procs = sort_key (\<lambda>p. (arrival p, burst p)) proc_list;
               s = sjf_loop (sjf_init procs)
           in (gantt s, results s, timeline s))"

section \<open>SRTF, preemptive (app.py, lines 136-193)\<close>

text \<open>
  A Python \<open>dict\<close> from process ids to integers is an association list with distinct keys in
  insertion order: \<open>d[k] = v\<close> is \<open>AList.update k v d\<close>, \<open>len(d)\<close> is \<open>length d\<close>, and
  \<open>k in d\<close> is \<open>has_key d k\<close>. Reading \<open>d[k]\<close> for an absent key raises \<open>KeyError\<close>.
\<close>

type_synonym dict = "(string \<times> int) list"

datatype py_error = KeyError string

definition has_key :: "dict \<Rightarrow> string \<Rightarrow> bool" where
  "has_key d k \<longleftrightarrow> map_of d k \<noteq> None"

text \<open>\<open>d[k]\<close> where the key is present; every use below is guarded by \<open>missing_key\<close>.\<close>

definition dict_get :: "dict \<Rightarrow> string \<Rightarrow> int" where
  "dict_get d k = (case map_of d k of Some v \<Rightarrow> v | None \<Rightarrow> 0)"

text \<open>The first process of \<open>ps\<close>, in iteration order, whose id is not a key of \<open>d\<close>.\<close>

definition missing_key :: "dict \<Rightarrow> process list \<Rightarrow> string option" where
  "missing_key d ps = map_option pid (find (\<lambda>p. \<not> has_key d (pid p)) ps)"

text \<open>The comprehension \<open>{p.pid: f(p) for p in procs}\<close>: a later duplicate id overwrites.\<close>

definition dict_of :: "(process \<Rightarrow> int) \<Rightarrow> process list \<Rightarrow> dict" where
  "dict_of f procs = fold (\<lambda>p d. AList.update (pid p) (f p) d) procs []"

record srtf_state = run_state +
  remaining_burst :: dict
  completed :: dict

definition srtf_init :: "process list \<Rightarrow> srtf_state" where
  "srtf_init procs =
     \<lparr>clock = 0, timeline = [], remaining_burst = dict_of burst procs, completed = []\<rparr>"

text \<open>
  One pass of the body of \<open>while len(completed) < n\<close> (lines 151-166). \<open>arrival_map\<close>
  is never written after its construction, so it is an argument. The list comprehension
  reads \<open>arrival_map[p.pid]\<close> for every process and the sort reads
  \<open>remaining_burst[p.pid]\<close> for every available one; a missing key raises there, before
  any variable is changed.
\<close>

definition srtf_step :: "process list \<Rightarrow> dict \<Rightarrow> srtf_state \<Rightarrow> py_error + srtf_state" where
  "srtf_step procs arrival_map s =
     (case missing_key arrival_map procs of
        Some k \<Rightarrow> Inl (KeyError k)
      | None \<Rightarrow>
          let available = [p \<leftarrow> procs. dict_get arrival_map (pid p) \<le> clock s
                                        \<and> \<not> has_key (completed s) (pid p)]
          in if available = [] then
               Inr (s\<lparr>clock := clock s + 1,
                      timeline := timeline s @ [\<lparr>tl_time = clock s, running = IDLE\<rparr>]\<rparr>)
             else
               (case missing_key (remaining_burst s) available of
                  Some k \<Rightarrow> Inl (KeyError k)
                | None \<Rightarrow>
                    let cur = hd (sort_key (\<lambda>p. dict_get (remaining_burst s) (pid p)) available);
                        rb = AList.update (pid cur)
                               (dict_get (remaining_burst s) (pid cur) - 1) (remaining_burst s);
                        time = clock s + 1
                    in Inr (s\<lparr>clock := time,
                              timeline := timeline s @ [\<lparr>tl_time = clock s, running = pid cur\<rparr>],
                              remaining_burst := rb,
                              completed := (if dict_get rb (pid cur) = 0
                                            then AList.update (pid cur) time (completed s)
                                            else completed s)\<rparr>)))"

text \<open>
  The loop may run forever (it does when two processes share an id, or a burst is not
  positive), so it is \<open>while_option\<close>: \<open>None\<close> is "does not return". An exception leaves
  the loop at once.
\<close>

definition srtf_cond :: "process list \<Rightarrow> py_error + srtf_state \<Rightarrow> bool" where
  "srtf_cond procs r =
     (case r of Inl e \<Rightarrow> False | Inr s \<Rightarrow> length (completed s) < length procs)"

definition srtf_body :: "process list \<Rightarrow> dict \<Rightarrow> py_error + srtf_state \<Rightarrow> py_error + srtf_state" where
  "srtf_body procs arrival_map r =
     (case r of Inl e \<Rightarrow> Inl e | Inr s \<Rightarrow> srtf_step procs arrival_map s)"

definition srtf_loop ::
  "process list \<Rightarrow> dict \<Rightarrow> py_error + srtf_state \<Rightarrow> (py_error + srtf_state) option" where
  "srtf_loop procs arrival_map = while_option (srtf_cond procs) (srtf_body procs arrival_map)"

text \<open>
  Lines 168-183: the Gantt segments are built from the timeline by merging runs of equal
  \<open>running\<close> values. \<open>merge_loop\<close> is the \<open>for entry in timeline[1:]\<close> loop with its
  variables \<open>cur_pid\<close>, \<open>seg_start\<close> and \<open>gantt_segments\<close>.
\<close>

fun merge_loop ::
  "string \<Rightarrow> int \<Rightarrow> segment list \<Rightarrow> timeline_unit list \<Rightarrow> string \<times> int \<times> segment list" where
  "merge_loop cur_pid seg_start0 segs [] = (cur_pid, seg_start0, segs)"
| "merge_loop cur_pid seg_start0 segs (entry # rest) =
     (if running entry \<noteq> cur_pid then
        merge_loop (running entry) (tl_time entry)
          (if cur_pid \<noteq> IDLE
           then segs @ [\<lparr>seg_pid = cur_pid, seg_start = seg_start0, seg_finish = tl_time entry\<rparr>]
           else segs) rest
      else merge_loop cur_pid seg_start0 segs rest)"

definition gantt_segments :: "timeline_unit list \<Rightarrow> segment list" where
  "gantt_segments tl0 =
     (if tl0 = [] then []
      else let (cur_pid, seg_start0, segs) =
                 merge_loop (running (hd tl0)) (tl_time (hd tl0)) [] (tl tl0);
               seg_end = tl_time (last tl0) + 1
           in if cur_pid \<noteq> IDLE
              then segs @ [\<lparr>seg_pid = cur_pid, seg_start = seg_start0, seg_finish = seg_end\<rparr>]
              else segs)"

text \<open>Lines 185-191: \<open>completed[p.pid]\<close> is read for every process, in the order of \<open>procs\<close>.\<close>

definition srtf_results :: "process list \<Rightarrow> dict \<Rightarrow> py_error + result_row list" where
  "srtf_results procs done =
     (case missing_key done procs of
        Some k \<Rightarrow> Inl (KeyError k)
      | None \<Rightarrow> Inr (map (\<lambda>p. make_row p (dict_get done (pid p))) procs))"

definition srtf_scheduler ::
  "process list \<Rightarrow> (py_error + segment list \<times> result_row list \<times> timeline_unit list) option" where
  "srtf_scheduler proc_list =
     (if proc_list = [] then Some (Inr ([], [], []))
      else let procs = sort_key arrival proc_list;
               arrival_map = dict_of arrival procs
           in case srtf_loop procs arrival_map (Inr (srtf_init procs)) of
                None \<Rightarrow> None
              | Some (Inl e) \<Rightarrow> Some (Inl e)
              | Some (Inr s) \<Rightarrow>
                  (case srtf_results procs (completed s) of
                     Inl e \<Rightarrow> Some (Inl e)
                   | Inr rows \<Rightarrow> Some (Inr (gantt_segments (timeline s), rows, timeline s))))"

section \<open>Metrics (app.py, lines 279-294)\<close>

text \<open>
  \<open>Series.mean()\<close> of an integer column: the sum divided by the number of rows. For an
  empty column the quotient is 0/0 and pandas returns NaN, which is \<open>None\<close> here. The
  division is exact (a \<open>real\<close>); the rounding of the 64-bit float that pandas returns is
  not modelled. The result rows are typed records, so the \<open>KeyError\<close> handler of the source
  (a table without a \<open>TAT\<close> or \<open>WT\<close> column) has no inputs. \<open>sort_values('pid')\<close> orders
  the rows by the id strings.
\<close>

definition mean :: "int list \<Rightarrow> real option" where
  "mean xs = (if length xs = 0 then None
              else Some (real_of_int (sum_list xs) / real (length xs)))"

definition results_table_with_metrics ::
  "result_row list \<Rightarrow> result_row list \<times> real option \<times> real option" where
  "results_table_with_metrics df_results =
     (if df_results = [] then (df_results, Some 0, Some 0)
      else let avg_tat = mean (map TAT df_results);
               avg_wt = mean (map WT df_results);
               df_sorted = sort_key row_pid df_results
           in (df_sorted, avg_tat, avg_wt))"

section \<open>Input validation (app.py, lines 21-60)\<close>

text \<open>
  A cell of a pandas DataFrame, by what \<open>int()\<close> and \<open>str()\<close> do to it: an integer, a finite
  float (its exact value, a rational), an infinite float (\<open>True\<close> for the negative one), a
  missing value (NaN, None), a string, a boolean, or an object of another type, given by
  its \<open>str()\<close>.
\<close>

datatype cell = CInt int | CFloat rat | CInf bool | CNaN | CStr string | CBool bool | CObj string

text \<open>
  A table: the column names, and the rows as maps from column names to cells. In a
  well-formed table every row has a cell for exactly the columns of the table.
\<close>

record dataframe =
  columns :: "string list"
  iterrows :: "(string \<rightharpoonup> cell) list"

definition wf_df :: "dataframe \<Rightarrow> bool" where
  "wf_df df \<longleftrightarrow> (\<forall>r\<in>set (iterrows df). dom r = set (columns df))"

text \<open>
  The two built-in conversions whose full definition lies outside the repository are
  parameters: \<open>int()\<close> on a string (\<open>None\<close> when it raises \<open>ValueError\<close>) and \<open>str()\<close> on a
  finite float.
\<close>

record builtins =
  int_of_str :: "string \<Rightarrow> int option"
  str_of_float :: "rat \<Rightarrow> string"

datatype conv_error = ValueError | TypeError | OverflowError

text \<open>\<open>int(x)\<close> of a float drops the fractional part (rounds toward zero).\<close>

definition truncate :: "rat \<Rightarrow> int" where
  "truncate q = (if 0 \<le> q then \<lfloor>q\<rfloor> else - \<lfloor>- q\<rfloor>)"

definition py_int :: "builtins \<Rightarrow> cell \<Rightarrow> conv_error + int" where
  "py_int B c =
     (case c of
        CInt i \<Rightarrow> Inr i
      | CFloat q \<Rightarrow> Inr (truncate q)
      | CInf neg \<Rightarrow> Inl OverflowError
      | CNaN \<Rightarrow> Inl ValueError
      | CStr s \<Rightarrow> (case int_of_str B s of None \<Rightarrow> Inl ValueError | Some i \<Rightarrow> Inr i)
      | CBool b \<Rightarrow> Inr (if b then 1 else 0)
      | CObj s \<Rightarrow> Inl TypeError)"

text \<open>Decimal digits of a natural number and of an integer, as \<open>str()\<close> prints them.\<close>

fun str_of_nat :: "nat \<Rightarrow> string" where
  "str_of_nat n =
     (if n < 10 then [char_of (48 + n)]
      else str_of_nat (n div 10) @ [char_of (48 + n mod 10)])"

declare str_of_nat.simps [simp del]

definition str_of_int :: "int \<Rightarrow> string" where
  "str_of_int i = (if i < 0 then ''-'' @ str_of_nat (nat (- i)) else str_of_nat (nat i))"

definition py_str :: "builtins \<Rightarrow> cell \<Rightarrow> string" where
  "py_str B c =
     (case c of
        CInt i \<Rightarrow> str_of_int i
      | CFloat q \<Rightarrow> str_of_float B q
      | CInf neg \<Rightarrow> (if neg then ''-inf'' else ''inf'')
      | CNaN \<Rightarrow> ''nan''
      | CStr s \<Rightarrow> s
      | CBool b \<Rightarrow> (if b then ''True'' else ''False'')
      | CObj s \<Rightarrow> s)"

text \<open>
  The exceptions that leave \<open>parse_df_to_processes\<close>. The first two are the \<open>ValueError\<close>s
  the function raises itself, with the data their messages carry: the list of missing
  columns, and the process id with the rule that was violated. An \<open>OverflowError\<close> or a
  \<open>KeyError\<close> from inside the \<open>try\<close> block is not caught by \<open>except (ValueError, TypeError)\<close>
  and leaves the function as it is.
\<close>

datatype rule = ArrivalNegative | BurstNotPositive | NotAnInteger | WrongType

datatype parse_error =
    MissingColumns "string list"
  | InvalidData string rule
  | Overflow
  | MissingKey string

text \<open>\<open>df.empty\<close>: true when the table has no rows or no columns.\<close>

definition df_empty :: "dataframe \<Rightarrow> bool" where
  "df_empty df \<longleftrightarrow> iterrows df = [] \<or> columns df = []"

text \<open>
  \<open>df.fillna(0)\<close>: every missing cell becomes 0. (In a float column pandas stores 0.0;
  \<open>int()\<close> gives 0 for both, and only the text of a missing id differs.)
\<close>

definition fill_cell :: "cell \<Rightarrow> cell" where
  "fill_cell c = (if c = CNaN then CInt 0 else c)"

definition fillna0 :: "dataframe \<Rightarrow> dataframe" where
  "fillna0 df = df\<lparr>iterrows := map (\<lambda>r. map_option fill_cell \<circ> r) (iterrows df)\<rparr>"

definition required_cols :: "string list" where
  "required_cols = [''arrival'', ''burst'']"

text \<open>\<open>df2.insert(0, 'pid', [f'P{i+1}' for i in range(len(df2))])\<close>\<close>

definition insert_pid :: "dataframe \<Rightarrow> dataframe" where
  "insert_pid df =
     \<lparr>columns = ''pid'' # columns df,
      iterrows = map (\<lambda>(i, r). r(''pid'' \<mapsto> CStr (''P'' @ str_of_nat (i + 1))))
               (zip [0..<length (iterrows df)] (iterrows df))\<rparr>"

text \<open>\<open>df2[names]\<close>: the table restricted to the listed columns, in the listed order.\<close>

definition select_cols :: "string list \<Rightarrow> dataframe \<Rightarrow> dataframe" where
  "select_cols names df = \<lparr>columns = names, iterrows = map (\<lambda>r. r |` set names) (iterrows df)\<rparr>"

text \<open>
  The handler \<open>except (ValueError, TypeError) as e: raise ValueError(f"Invalid data for
  process {r.get('pid', 'unknown')}: {e}")\<close> applied to an exception of \<open>int()\<close>.
\<close>

definition wrap :: "string \<Rightarrow> conv_error \<Rightarrow> parse_error" where
  "wrap p e =
     (case e of
        ValueError \<Rightarrow> InvalidData p NotAnInteger
      | TypeError \<Rightarrow> InvalidData p WrongType
      | OverflowError \<Rightarrow> Overflow)"

text \<open>
  The body of \<open>for _, r in df2.iterrows()\<close> (lines 44-58), in the order of the source:
  the id, then \<open>int()\<close> of arrival, of burst and of priority (when the table has that
  column), then the two sign checks. (\<open>iterrows\<close> hands an integer cell of an all-numeric
  row over as the float of the same value; \<open>int()\<close> gives the same integer back, and only
  the text of a numeric id differs.)
\<close>

definition row_to_process :: "builtins \<Rightarrow> bool \<Rightarrow> (string \<rightharpoonup> cell) \<Rightarrow> parse_error + process" where
  "row_to_process B has_priority r =
     (case r ''pid'' of
        None \<Rightarrow> Inl (MissingKey ''pid'')
      | Some pc \<Rightarrow>
     (case r ''arrival'' of
        None \<Rightarrow> Inl (MissingKey ''arrival'')
      | Some ac \<Rightarrow>
     (case py_int B ac of
        Inl e \<Rightarrow> Inl (wrap (py_str B pc) e)
      | Inr a \<Rightarrow>
     (case r ''burst'' of
        None \<Rightarrow> Inl (MissingKey ''burst'')
      | Some bc \<Rightarrow>
     (case py_int B bc of
        Inl e \<Rightarrow> Inl (wrap (py_str B pc) e)
      | Inr b \<Rightarrow>
     (case (if has_priority
            then (case r ''priority'' of
                    None \<Rightarrow> Inl (MissingKey ''priority'')
                  | Some c \<Rightarrow> (case py_int B c of
                                Inl e \<Rightarrow> Inl (wrap (py_str B pc) e)
                              | Inr v \<Rightarrow> Inr v))
            else Inr 0) of
        Inl e \<Rightarrow> Inl e
      | Inr prio \<Rightarrow>
          if a < 0 then Inl (InvalidData (py_str B pc) ArrivalNegative)
          else if b \<le> 0 then Inl (InvalidData (py_str B pc) BurstNotPositive)
          else Inr \<lparr>pid = py_str B pc, arrival = a, burst = b, priority = prio\<rparr>))))))"

text \<open>The loop over the rows: the first exception ends it, otherwise the processes pile up.\<close>

fun rows_to_procs ::
  "builtins \<Rightarrow> bool \<Rightarrow> (string \<rightharpoonup> cell) list \<Rightarrow> parse_error + process list" where
  "rows_to_procs B has_priority [] = Inr []"
| "rows_to_procs B has_priority (r # rs) =
     (case row_to_process B has_priority r of
        Inl e \<Rightarrow> Inl e
      | Inr p \<Rightarrow>
          (case rows_to_procs B has_priority rs of
             Inl e \<Rightarrow> Inl e
           | Inr ps \<Rightarrow> Inr (p # ps)))"

text \<open>The table the loop runs over (lines 26-40), for a table that passed the column check.\<close>

definition prepared :: "dataframe \<Rightarrow> dataframe" where
  "prepared df =
     (let df2 = fillna0 df;
          df3 = (if ''pid'' \<notin> set (columns df2) then insert_pid df2 else df2)
      in if ''priority'' \<in> set (columns df3)
         then select_cols [''pid'', ''arrival'', ''burst'', ''priority''] df3
         else select_cols [''pid'', ''arrival'', ''burst''] df3)"

definition parse_df_to_processes :: "builtins \<Rightarrow> dataframe \<Rightarrow> parse_error + process list" where
  "parse_df_to_processes B df =
     (if df_empty df then Inr []
      else let missing_cols = [col \<leftarrow> required_cols. col \<notin> set (columns (fillna0 df))]
           in if missing_cols \<noteq> [] then Inl (MissingColumns missing_cols)
              else rows_to_procs B (''priority'' \<in> set (columns (prepared df)))
                     (iterrows (prepared df)))"

section \<open>The default example of the application (app.py, lines 322-327)\<close>

definition scenario :: "process list" where
  "scenario =
     [\<lparr>pid = ''P1'', arrival = 0, burst = 5, priority = 0\<rparr>,
      \<lparr>pid = ''P2'', arrival = 1, burst = 3, priority = 0\<rparr>,
      \<lparr>pid = ''P3'', arrival = 2, burst = 8, priority = 0\<rparr>,
      \<lparr>pid = ''P4'', arrival = 3, burst = 6, priority = 0\<rparr>]"

definition completions :: "result_row list \<Rightarrow> (string \<times> int) list" where
  "completions rows = map (\<lambda>r. (row_pid r, CT r)) rows"

definition averages :: "result_row list \<Rightarrow> real option \<times> real option" where
  "averages rows = snd (results_table_with_metrics rows)"

lemma scenario_fcfs:
  "fcfs_scheduler scenario =
     ([\<lparr>seg_pid = ''P1'', seg_start = 0, seg_finish = 5\<rparr>,
       \<lparr>seg_pid = ''P2'', seg_start = 5, seg_finish = 8\<rparr>,
       \<lparr>seg_pid = ''P3'', seg_start = 8, seg_finish = 16\<rparr>,
       \<lparr>seg_pid = ''P4'', seg_start = 16, seg_finish = 22\<rparr>],
      [\<lparr>row_pid = ''P1'', AT = 0, BT = 5, CT = 5, TAT = 5, WT = 0\<rparr>,
       \<lparr>row_pid = ''P2'', AT = 1, BT = 3, CT = 8, TAT = 7, WT = 4\<rparr>,
       \<lparr>row_pid = ''P3'', AT = 2, BT = 8, CT = 16, TAT = 14, WT = 6\<rparr>,
       \<lparr>row_pid = ''P4'', AT = 3, BT = 6, CT = 22, TAT = 19, WT = 13\<rparr>],
      units ''P1'' 0 5 @ units ''P2'' 5 8 @ units ''P3'' 8 16 @ units ''P4'' 16 22)"
  by code_simp

lemma scenario_sjf:
  "sjf_nonpreemptive_scheduler scenario =
     ([\<lparr>seg_pid = ''P1'', seg_start = 0, seg_finish = 5\<rparr>,
       \<lparr>seg_pid = ''P2'', seg_start = 5, seg_finish = 8\<rparr>,
       \<lparr>seg_pid = ''P4'', seg_start = 8, seg_finish = 14\<rparr>,
       \<lparr>seg_pid = ''P3'', seg_start = 14, seg_finish = 22\<rparr>],
      [\<lparr>row_pid = ''P1'', AT = 0, BT = 5, CT = 5, TAT = 5, WT = 0\<rparr>,
       \<lparr>row_pid = ''P2'', AT = 1, BT = 3, CT = 8, TAT = 7, WT = 4\<rparr>,
       \<lparr>row_pid = ''P4'', AT = 3, BT = 6, CT = 14, TAT = 11, WT = 5\<rparr>,
       \<lparr>row_pid = ''P3'', AT = 2, BT = 8, CT = 22, TAT = 20, WT = 12\<rparr>],
      units ''P1'' 0 5 @ units ''P2'' 5 8 @ units ''P4'' 8 14 @ units ''P3'' 14 22)"
  by code_simp

lemma scenario_srtf:
  "srtf_scheduler scenario =
     Some (Inr
      ([\<lparr>seg_pid = ''P1'', seg_start = 0, seg_finish = 1\<rparr>,
        \<lparr>seg_pid = ''P2'', seg_start = 1, seg_finish = 4\<rparr>,
        \<lparr>seg_pid = ''P1'', seg_start = 4, seg_finish = 8\<rparr>,
        \<lparr>seg_pid = ''P4'', seg_start = 8, seg_finish = 14\<rparr>,
        \<lparr>seg_pid = ''P3'', seg_start = 14, seg_finish = 22\<rparr>],
       [\<lparr>row_pid = ''P1'', AT = 0, BT = 5, CT = 8, TAT = 8, WT = 3\<rparr>,
        \<lparr>row_pid = ''P2'', AT = 1, BT = 3, CT = 4, TAT = 3, WT = 0\<rparr>,
        \<lparr>row_pid = ''P3'', AT = 2, BT = 8, CT = 22, TAT = 20, WT = 12\<rparr>,
        \<lparr>row_pid = ''P4'', AT = 3, BT = 6, CT = 14, TAT = 11, WT = 5\<rparr>],
       units ''P1'' 0 1 @ units ''P2'' 1 4 @ units ''P1'' 4 8 @ units ''P4'' 8 14
         @ units ''P3'' 14 22))"
  by code_simp

section \<open>The claims\<close>

text \<open>
  Claim C1. On the input P1(arrival 0, burst 5), P2(1, 3), P3(2, 8), P4(3, 6), in that
  order: FCFS completes P1 at 5, P2 at 8, P3 at 16 and P4 at 22, with average turnaround
  11.25 and average waiting 5.75; SJF completes P1 at 5, P2 at 8, P4 at 14 and P3 at 22,
  with averages 10.75 and 5.25; SRTF returns, and completes P2 at 4, P1 at 8, P4 at 14 and
  P3 at 22, with averages 10.5 and 5. The completions are listed in the order of the
  result rows: run order for FCFS and SJF, arrival order for SRTF.
\<close>

theorem scenario_completions_and_averages:
  "completions (fst (snd (fcfs_scheduler scenario))) =
     [(''P1'', 5), (''P2'', 8), (''P3'', 16), (''P4'', 22)] \<and>
   averages (fst (snd (fcfs_scheduler scenario))) = (Some 11.25, Some 5.75) \<and>
   completions (fst (snd (sjf_nonpreemptive_scheduler scenario))) =
     [(''P1'', 5), (''P2'', 8), (''P4'', 14), (''P3'', 22)] \<and>
   averages (fst (snd (sjf_nonpreemptive_scheduler scenario))) = (Some 10.75, Some 5.25) \<and>
   (\<exists>g rows t. srtf_scheduler scenario = Some (Inr (g, rows, t)) \<and>
      completions rows = [(''P1'', 8), (''P2'', 4), (''P3'', 22), (''P4'', 14)] \<and>
      averages rows = (Some 10.5, Some 5))"
  by (simp add: scenario_fcfs scenario_sjf scenario_srtf completions_def averages_def
      results_table_with_metrics_def mean_def)

section \<open>Validity of inputs and of result rows\<close>

definition valid_procs :: "process list \<Rightarrow> bool" where
  "valid_procs ps \<longleftrightarrow> (\<forall>p\<in>set ps. 0 \<le> arrival p \<and> 0 < burst p)"

definition row_ok :: "result_row \<Rightarrow> bool" where
  "row_ok r \<longleftrightarrow> 0 \<le> WT r \<and> BT r \<le> TAT r \<and> CT r = AT r + TAT r \<and> WT r = TAT r - BT r"

lemma units_times [simp]: "map tl_time (units w a b) = [a..b - 1]"
  by (simp add: units_def comp_def)

lemma units_running: "u \<in> set (units w a b) \<Longrightarrow> running u = w"
  by (auto simp: units_def)

lemma units_Nil [simp]: "b \<le> a \<Longrightarrow> units w a b = []"
  by (simp add: units_def)

lemma length_units [simp]: "length (units w a b) = nat (b - a)"
  by (simp add: units_def)

lemma upto_glue: "a \<le> b \<Longrightarrow> b \<le> c \<Longrightarrow> [a..b - 1] @ [b..c - 1] = [a..c - 1]"
proof -
  assume ab: "a \<le> b" and bc: "b \<le> c"
  show ?thesis
  proof (cases "b = c")
    case True
    then show ?thesis by simp
  next
    case False
    with bc have "b \<le> c - 1" by simp
    from upto_split1 [OF ab this] show ?thesis by simp
  qed
qed

lemma upto_glue3:
  "a \<le> b \<Longrightarrow> b \<le> c \<Longrightarrow> c \<le> d \<Longrightarrow> [a..b - 1] @ [b..c - 1] @ [c..d - 1] = [a..d - 1]"
  by (simp add: upto_glue)

lemma make_row_ok: "arrival p + burst p \<le> ct \<Longrightarrow> row_ok (make_row p ct)"
  by (simp add: make_row_def row_ok_def Let_def)

lemma make_row_simps [simp]:
  "row_pid (make_row p ct) = pid p" "AT (make_row p ct) = arrival p"
  "BT (make_row p ct) = burst p" "CT (make_row p ct) = ct"
  "TAT (make_row p ct) = ct - arrival p" "WT (make_row p ct) = ct - arrival p - burst p"
  by (simp_all add: make_row_def Let_def)

section \<open>FCFS: the loop as a fold\<close>

lemma fcfs_step_fields:
  "clock (fcfs_step p s) = max (clock s) (arrival p) + burst p"
  "gantt (fcfs_step p s) = gantt s @
     [\<lparr>seg_pid = pid p, seg_start = max (clock s) (arrival p),
       seg_finish = max (clock s) (arrival p) + burst p\<rparr>]"
  "results (fcfs_step p s) = results s @ [make_row p (max (clock s) (arrival p) + burst p)]"
  "timeline (fcfs_step p s) = timeline s @ units IDLE (clock s) (max (clock s) (arrival p))
     @ units (pid p) (max (clock s) (arrival p)) (max (clock s) (arrival p) + burst p)"
  by (simp_all add: fcfs_step_def Let_def)

text \<open>The state of the FCFS loop after the processes \<open>xs\<close> have been handled.\<close>

definition fcfs_run :: "process list \<Rightarrow> sched_state" where
  "fcfs_run xs = fold fcfs_step xs sched_init"

lemma fcfs_run_Nil [simp]: "fcfs_run [] = sched_init"
  by (simp add: fcfs_run_def)

lemma fcfs_run_snoc: "fcfs_run (xs @ [x]) = fcfs_step x (fcfs_run xs)"
  by (simp add: fcfs_run_def)

lemma fcfs_rows_ok: "r \<in> set (results (fcfs_run xs)) \<Longrightarrow> row_ok r"
proof (induction xs arbitrary: r rule: rev_induct)
  case Nil
  then show ?case by (simp add: sched_init_def)
next
  case (snoc x xs)
  then show ?case by (auto simp: fcfs_run_snoc fcfs_step_fields intro!: make_row_ok)
qed

lemma fcfs_lengths:
  "length (gantt (fcfs_run xs)) = length xs \<and> length (results (fcfs_run xs)) = length xs"
  by (induction xs rule: rev_induct) (simp_all add: sched_init_def fcfs_run_snoc fcfs_step_fields)

lemma fcfs_clock:
  "clock (fcfs_run xs) = (if xs = [] then 0 else seg_finish (last (gantt (fcfs_run xs))))"
  by (induction xs rule: rev_induct) (simp_all add: sched_init_def fcfs_run_snoc fcfs_step_fields)

lemma fcfs_clock_CT:
  "clock (fcfs_run xs) = (if xs = [] then 0 else CT (last (results (fcfs_run xs))))"
  by (induction xs rule: rev_induct) (simp_all add: sched_init_def fcfs_run_snoc fcfs_step_fields)

lemma fcfs_clock_mono:
  "\<forall>p\<in>set xs. 0 \<le> burst p \<Longrightarrow> 0 \<le> clock (fcfs_run xs) \<and> (\<forall>r\<in>set (results (fcfs_run xs)). CT r \<le> clock (fcfs_run xs))"
proof (induction xs rule: rev_induct)
  case Nil
  then show ?case by (simp add: sched_init_def)
next
  case (snoc x xs)
  then have ih: "0 \<le> clock (fcfs_run xs)" "\<forall>r\<in>set (results (fcfs_run xs)). CT r \<le> clock (fcfs_run xs)"
    and b: "0 \<le> burst x" by auto
  show ?case using ih b by (fastforce simp: fcfs_run_snoc fcfs_step_fields)
qed

lemma fcfs_timeline_times:
  "\<forall>p\<in>set xs. 0 \<le> burst p \<Longrightarrow> map tl_time (timeline (fcfs_run xs)) = [0..clock (fcfs_run xs) - 1]"
proof (induction xs rule: rev_induct)
  case Nil
  then show ?case by (simp add: sched_init_def)
next
  case (snoc x xs)
  then have ih: "map tl_time (timeline (fcfs_run xs)) = [0..clock (fcfs_run xs) - 1]"
    and b: "0 \<le> burst x" and bs: "\<forall>p\<in>set xs. 0 \<le> burst p" by auto
  from fcfs_clock_mono [OF bs] have c0: "0 \<le> clock (fcfs_run xs)" by simp
  let ?c = "clock (fcfs_run xs)" and ?st = "max (clock (fcfs_run xs)) (arrival x)"
  have "[0..?c - 1] @ [?c..?st - 1] @ [?st..?st + burst x - 1] = [0..?st + burst x - 1]"
    using c0 b by (intro upto_glue3) simp_all
  then show ?case using ih
    by (simp add: fcfs_run_snoc fcfs_step_fields)
qed

lemma fcfs_timeline_occupants:
  "u \<in> set (timeline (fcfs_run xs)) \<Longrightarrow> running u = IDLE \<or> running u \<in> pid ` set xs"
proof (induction xs arbitrary: u rule: rev_induct)
  case Nil
  then show ?case by (simp add: sched_init_def)
next
  case (snoc x xs)
  then show ?case by (auto simp: fcfs_run_snoc fcfs_step_fields dest: units_running)
qed


text \<open>
  The segment FCFS gives to process \<open>p\<close> when the CPU becomes free at time \<open>t\<close>: it starts at
  \<open>max t (arrival p)\<close> and lasts the whole burst.
\<close>

definition fcfs_segment :: "int \<Rightarrow> process \<Rightarrow> segment" where
  "fcfs_segment t p =
     \<lparr>seg_pid = pid p, seg_start = max t (arrival p), seg_finish = max t (arrival p) + burst p\<rparr>"

text \<open>
  The time at which the CPU is free for the \<open>i\<close>-th segment of \<open>g\<close>: 0 for the first one,
  the end of the previous segment otherwise.
\<close>

definition free_at :: "segment list \<Rightarrow> nat \<Rightarrow> int" where
  "free_at g i = (if i = 0 then 0 else seg_finish (g ! (i - 1)))"

lemma fcfs_gantt_snoc:
  "gantt (fcfs_run (xs @ [x])) = gantt (fcfs_run xs) @ [fcfs_segment (clock (fcfs_run xs)) x]"
  by (simp add: fcfs_run_snoc fcfs_step_fields fcfs_segment_def)

lemma fcfs_results_snoc:
  "results (fcfs_run (xs @ [x])) =
     results (fcfs_run xs) @ [make_row x (seg_finish (fcfs_segment (clock (fcfs_run xs)) x))]"
  by (simp add: fcfs_run_snoc fcfs_step_fields fcfs_segment_def)

lemma fcfs_timeline_snoc:
  "timeline (fcfs_run (xs @ [x])) =
     timeline (fcfs_run xs) @
     units IDLE (clock (fcfs_run xs)) (seg_start (fcfs_segment (clock (fcfs_run xs)) x)) @
     units (pid x) (seg_start (fcfs_segment (clock (fcfs_run xs)) x))
       (seg_finish (fcfs_segment (clock (fcfs_run xs)) x))"
  by (simp add: fcfs_run_snoc fcfs_step_fields fcfs_segment_def)

lemma fcfs_clock_free_at:
  "clock (fcfs_run xs) = free_at (gantt (fcfs_run xs)) (length xs)"
proof (cases "xs = []")
  case True
  then show ?thesis by (simp add: free_at_def sched_init_def)
next
  case False
  then have "gantt (fcfs_run xs) \<noteq> []" using fcfs_lengths [of xs] by auto
  then have "last (gantt (fcfs_run xs)) = gantt (fcfs_run xs) ! (length xs - 1)"
    using fcfs_lengths [of xs] by (simp add: last_conv_nth)
  with False show ?thesis by (simp add: fcfs_clock free_at_def)
qed

lemma free_at_append: "i \<le> length g \<Longrightarrow> free_at (g @ h) i = free_at g i"
  by (auto simp: free_at_def nth_append)

lemma fcfs_gantt_nth:
  "i < length xs \<Longrightarrow>
     gantt (fcfs_run xs) ! i = fcfs_segment (free_at (gantt (fcfs_run xs)) i) (xs ! i)"
proof (induction xs rule: rev_induct)
  case Nil
  then show ?case by simp
next
  case (snoc x xs)
  have len: "length (gantt (fcfs_run xs)) = length xs" using fcfs_lengths by simp
  show ?case
  proof (cases "i < length xs")
    case True
    with snoc.IH len show ?thesis
      by (simp add: fcfs_gantt_snoc nth_append free_at_append)
  next
    case False
    with snoc.prems have i: "i = length xs" by simp
    show ?thesis unfolding i fcfs_gantt_snoc
      using len by (simp add: nth_append free_at_append fcfs_clock_free_at [symmetric])
  qed
qed

lemma fcfs_results_nth:
  "i < length xs \<Longrightarrow>
     results (fcfs_run xs) ! i = make_row (xs ! i) (seg_finish (gantt (fcfs_run xs) ! i))"
proof (induction xs rule: rev_induct)
  case Nil
  then show ?case by simp
next
  case (snoc x xs)
  have len: "length (gantt (fcfs_run xs)) = length xs" "length (results (fcfs_run xs)) = length xs"
    using fcfs_lengths by simp_all
  show ?case
  proof (cases "i < length xs")
    case True
    with snoc.IH len show ?thesis
      by (simp add: fcfs_gantt_snoc fcfs_results_snoc nth_append)
  next
    case False
    with snoc.prems have i: "i = length xs" by simp
    show ?thesis unfolding i fcfs_gantt_snoc fcfs_results_snoc
      using len by (simp add: nth_append)
  qed
qed

text \<open>
  The timeline units that belong to the \<open>i\<close>-th segment: idle units from the moment the CPU is
  free to the start of the segment, then one unit of the segment's process for every time
  from its start to its end. First as the source appends them, then written out.
\<close>

definition slot_appended :: "segment list \<Rightarrow> nat \<Rightarrow> timeline_unit list" where
  "slot_appended g i =
     units IDLE (free_at g i) (seg_start (g ! i)) @
     units (seg_pid (g ! i)) (seg_start (g ! i)) (seg_finish (g ! i))"

definition slot :: "segment list \<Rightarrow> nat \<Rightarrow> timeline_unit list" where
  "slot g i =
     map (\<lambda>t. \<lparr>tl_time = t, running = ''IDLE''\<rparr>) [free_at g i..seg_start (g ! i) - 1] @
     map (\<lambda>t. \<lparr>tl_time = t, running = seg_pid (g ! i)\<rparr>) [seg_start (g ! i)..seg_finish (g ! i) - 1]"

lemma slot_append: "i < length g \<Longrightarrow> slot_appended (g @ h) i = slot_appended g i"
  by (simp add: slot_appended_def nth_append free_at_append)

lemma fcfs_timeline_slots:
  "timeline (fcfs_run xs) = concat (map (slot_appended (gantt (fcfs_run xs))) [0..<length xs])"
proof (induction xs rule: rev_induct)
  case Nil
  then show ?case by (simp add: sched_init_def)
next
  case (snoc x xs)
  let ?g = "gantt (fcfs_run xs)" and ?s = "fcfs_segment (clock (fcfs_run xs)) x"
  have len: "length ?g = length xs" using fcfs_lengths by simp
  have old: "map (slot_appended (?g @ [?s])) [0..<length xs] = map (slot_appended ?g) [0..<length xs]"
    using len by (intro map_cong) (simp_all add: slot_append)
  have new: "slot_appended (?g @ [?s]) (length xs) =
     units IDLE (clock (fcfs_run xs)) (seg_start ?s) @ units (pid x) (seg_start ?s) (seg_finish ?s)"
    using len
    by (simp add: slot_appended_def nth_append free_at_append fcfs_clock_free_at [symmetric]
        fcfs_segment_def)
  have "concat (map (slot_appended (?g @ [?s])) [0..<length (xs @ [x])]) =
      concat (map (slot_appended (?g @ [?s])) [0..<length xs]) @ slot_appended (?g @ [?s]) (length xs)"
    by simp
  also have "\<dots> = timeline (fcfs_run (xs @ [x]))"
    unfolding old new fcfs_timeline_snoc snoc.IH by simp
  finally show ?case unfolding fcfs_gantt_snoc by simp
qed


lemma map_insort_key:
  "map h (insort_key (\<lambda>x. f (h x)) x xs) = insort_key f (h x) (map h xs)"
  by (induction xs) simp_all

lemma map_sort_key: "map h (sort_key (\<lambda>x. f (h x)) xs) = sort_key f (map h xs)"
  by (induction xs) (simp_all add: map_insort_key)

lemma pids_sort_key_arrival:
  "map pid (sort_key arrival ps) = map fst (sort_key snd (map (\<lambda>p. (pid p, arrival p)) ps))"
proof -
  have "map (\<lambda>p. (pid p, arrival p)) (sort_key (\<lambda>p. snd (pid p, arrival p)) ps) =
        sort_key snd (map (\<lambda>p. (pid p, arrival p)) ps)"
    by (rule map_sort_key)
  then have "sort_key snd (map (\<lambda>p. (pid p, arrival p)) ps) =
       map (\<lambda>p. (pid p, arrival p)) (sort_key arrival ps)" by simp
  then show ?thesis by (simp add: comp_def)
qed

lemma fcfs_scheduler_run:
  "fcfs_scheduler ps =
     (gantt (fcfs_run (sort_key arrival ps)), results (fcfs_run (sort_key arrival ps)),
      timeline (fcfs_run (sort_key arrival ps)))"
  by (cases "ps = []") (simp_all add: fcfs_scheduler_def fcfs_run_def Let_def sched_init_def)

text \<open>
  Claim C4. For a process list of length \<open>n\<close>, FCFS runs the processes in an order that is a
  rearrangement of the input, ascending in arrival time, with processes of equal arrival in
  their input order; the order of the ids is computed from the id and arrival columns alone,
  so it does not depend on the bursts. It emits exactly \<open>n\<close> segments and \<open>n\<close> result rows.
  The \<open>i\<close>-th segment belongs to the \<open>i\<close>-th process of that order, starts at the maximum of
  the time the CPU became free and the process's arrival, and ends one whole burst later;
  the \<open>i\<close>-th row is the row of that process, and its completion time is the end of that
  segment. The timeline is, segment after segment, one idle unit for every time value of
  the gap before the segment followed by one unit of its process for every time value of
  the segment, so no process is interrupted. Validity of the list is not needed.
\<close>

theorem fcfs_run_order_and_segments:
  assumes "fcfs_scheduler ps = (g, rows, tline)"
  shows "\<exists>order.
      mset order = mset ps \<and> sorted (map arrival order) \<and>
      (\<forall>a. filter (\<lambda>p. arrival p = a) order = filter (\<lambda>p. arrival p = a) ps) \<and>
      map seg_pid g = map fst (sort_key snd (map (\<lambda>p. (pid p, arrival p)) ps)) \<and>
      length g = length ps \<and> length rows = length ps \<and>
      (\<forall>i<length ps. g ! i = fcfs_segment (free_at g i) (order ! i) \<and>
                       CT (rows ! i) = seg_finish (g ! i) \<and>
                       row_pid (rows ! i) = pid (order ! i) \<and>
                       AT (rows ! i) = arrival (order ! i) \<and>
                       BT (rows ! i) = burst (order ! i) \<and>
                       TAT (rows ! i) = CT (rows ! i) - AT (rows ! i) \<and>
                       WT (rows ! i) = TAT (rows ! i) - BT (rows ! i)) \<and>
      tline = concat (map (slot g) [0..<length ps])"
proof -
  let ?o = "sort_key arrival ps"
  from assms have g: "g = gantt (fcfs_run ?o)" and r: "rows = results (fcfs_run ?o)"
    and t: "tline = timeline (fcfs_run ?o)"
    by (simp_all add: fcfs_scheduler_run)
  have len: "length ?o = length ps" by simp
  have 1: "mset ?o = mset ps" by simp
  have 2: "sorted (map arrival ?o)" by simp
  have 3: "\<forall>a. filter (\<lambda>p. arrival p = a) ?o = filter (\<lambda>p. arrival p = a) ps"
    by (simp add: sort_key_stable)
  have 5: "length g = length ps" "length rows = length ps"
    using fcfs_lengths [of ?o] by (simp_all add: g r)
  have pids: "map seg_pid g = map pid ?o"
  proof (rule nth_equalityI)
    show "length (map seg_pid g) = length (map pid ?o)" using 5 by simp
  next
    fix i assume "i < length (map seg_pid g)"
    then have i: "i < length ?o" using 5 by simp
    from fcfs_gantt_nth [OF i] show "map seg_pid g ! i = map pid ?o ! i"
      using i 5 by (simp add: g fcfs_segment_def)
  qed
  have 4: "map seg_pid g = map fst (sort_key snd (map (\<lambda>p. (pid p, arrival p)) ps))"
    using pids by (simp only: pids_sort_key_arrival)
  have 6: "\<forall>i<length ps. g ! i = fcfs_segment (free_at g i) (?o ! i) \<and>
                       CT (rows ! i) = seg_finish (g ! i) \<and>
                       row_pid (rows ! i) = pid (?o ! i) \<and>
                       AT (rows ! i) = arrival (?o ! i) \<and>
                       BT (rows ! i) = burst (?o ! i) \<and>
                       TAT (rows ! i) = CT (rows ! i) - AT (rows ! i) \<and>
                       WT (rows ! i) = TAT (rows ! i) - BT (rows ! i)"
    using fcfs_gantt_nth [of _ ?o] fcfs_results_nth [of _ ?o]
    by (simp add: g r make_row_def Let_def)
  have su: "slot_appended = slot"
    by (intro ext) (simp add: slot_appended_def slot_def units_def IDLE_def)
  have 7: "tline = concat (map (slot g) [0..<length ps])"
    using fcfs_timeline_slots [of ?o] by (simp add: g t su)
  from 1 2 3 4 5 6 7 show ?thesis by blast
qed


lemma scenario_length: "length scenario = 4"
  by (simp add: scenario_def)

theorem fcfs_run_order_and_segments_witness:
  "\<exists>g rows tline order.
     fcfs_scheduler scenario = (g, rows, tline) \<and>
     mset order = mset scenario \<and> sorted (map arrival order) \<and>
     map seg_pid g = [''P1'', ''P2'', ''P3'', ''P4''] \<and> length g = 4 \<and>
     g ! 2 = fcfs_segment (free_at g 2) (order ! 2) \<and>
     CT (rows ! 2) = seg_finish (g ! 2) \<and> row_pid (rows ! 2) = pid (order ! 2) \<and>
     map CT rows = [5, 8, 16, 22] \<and>
     tline = concat (map (slot g) [0..<4])"
proof -
  obtain g rows tline where out: "fcfs_scheduler scenario = (g, rows, tline)"
    by (cases "fcfs_scheduler scenario")
  from fcfs_run_order_and_segments [OF out] obtain order where o:
    "mset order = mset scenario" "sorted (map arrival order)"
    "map seg_pid g = map fst (sort_key snd (map (\<lambda>p. (pid p, arrival p)) scenario))"
    "length g = length scenario"
    "\<forall>i<length scenario. g ! i = fcfs_segment (free_at g i) (order ! i) \<and>
        CT (rows ! i) = seg_finish (g ! i) \<and> row_pid (rows ! i) = pid (order ! i)"
    "tline = concat (map (slot g) [0..<length scenario])"
    by blast
  have pids: "map fst (sort_key snd (map (\<lambda>p. (pid p, arrival p)) scenario)) =
      [''P1'', ''P2'', ''P3'', ''P4'']"
    by (simp add: scenario_def)
  have "map CT (fst (snd (fcfs_scheduler scenario))) = [5, 8, 16, 22]" by code_simp
  with out have cts: "map CT rows = [5, 8, 16, 22]" by simp
  from o(5) have "g ! 2 = fcfs_segment (free_at g 2) (order ! 2) \<and>
        CT (rows ! 2) = seg_finish (g ! 2) \<and> row_pid (rows ! 2) = pid (order ! 2)"
    by (simp add: scenario_length)
  with out o pids cts have
    "fcfs_scheduler scenario = (g, rows, tline) \<and>
     mset order = mset scenario \<and> sorted (map arrival order) \<and>
     map seg_pid g = [''P1'', ''P2'', ''P3'', ''P4''] \<and> length g = 4 \<and>
     g ! 2 = fcfs_segment (free_at g 2) (order ! 2) \<and>
     CT (rows ! 2) = seg_finish (g ! 2) \<and> row_pid (rows ! 2) = pid (order ! 2) \<and>
     map CT rows = [5, 8, 16, 22] \<and>
     tline = concat (map (slot g) [0..<4])"
    by (simp add: scenario_length)
  then show ?thesis by (iprover intro: exI)
qed

section \<open>Metrics\<close>

text \<open>
  Claim C9. For a non-empty collection of result rows the function returns the sum of the
  turnaround column divided by the number of rows, and the same for the waiting column,
  and the divisor is not zero. For the empty collection it returns the empty table with
  both averages 0. In neither case is an average the NaN of a division 0/0.
\<close>

theorem results_table_with_metrics_means:
  "results_table_with_metrics [] = ([], Some 0, Some 0) \<and>
   (rows \<noteq> [] \<longrightarrow>
      snd (results_table_with_metrics rows) =
        (Some (real_of_int (\<Sum>r\<leftarrow>rows. TAT r) / real (length rows)),
         Some (real_of_int (\<Sum>r\<leftarrow>rows. WT r) / real (length rows))) \<and>
      length rows \<noteq> 0) \<and>
   fst (snd (results_table_with_metrics rows)) \<noteq> None \<and>
   snd (snd (results_table_with_metrics rows)) \<noteq> None"
  by (simp add: results_table_with_metrics_def mean_def Let_def)

theorem results_table_with_metrics_means_witness:
  "[\<lparr>row_pid = ''B'', AT = 0, BT = 2, CT = 5, TAT = 5, WT = 3\<rparr>,
    \<lparr>row_pid = ''A'', AT = 1, BT = 2, CT = 3, TAT = 2, WT = 0\<rparr>] \<noteq> [] \<and>
   snd (results_table_with_metrics
     [\<lparr>row_pid = ''B'', AT = 0, BT = 2, CT = 5, TAT = 5, WT = 3\<rparr>,
      \<lparr>row_pid = ''A'', AT = 1, BT = 2, CT = 3, TAT = 2, WT = 0\<rparr>]) = (Some 3.5, Some 1.5)"
  using results_table_with_metrics_means
    [of "[\<lparr>row_pid = ''B'', AT = 0, BT = 2, CT = 5, TAT = 5, WT = 3\<rparr>,
          \<lparr>row_pid = ''A'', AT = 1, BT = 2, CT = 3, TAT = 2, WT = 0\<rparr>]"]
  by simp

section \<open>Selection by a stable sort\<close>

text \<open>
  The first element of \<open>xs\<close>, in list order, among the eligible ones whose key \<open>k1\<close> is minimal
  and, among those, whose key \<open>k2\<close> is minimal.
\<close>

definition first_best :: "('a \<Rightarrow> bool) \<Rightarrow> ('a \<Rightarrow> int) \<Rightarrow> ('a \<Rightarrow> int) \<Rightarrow> 'a list \<Rightarrow> 'a option" where
  "first_best ok k1 k2 xs =
     find (\<lambda>x. ok x \<and> (\<forall>y\<in>set xs. ok y \<longrightarrow> k1 x < k1 y \<or> (k1 x = k1 y \<and> k2 x \<le> k2 y))) xs"

lemma find_filter_hd:
  "find P xs = (case filter P xs of [] \<Rightarrow> None | x # _ \<Rightarrow> Some x)"
  by (induction xs) simp_all

lemma find_in_filter: "find P (filter Q xs) = find (\<lambda>x. Q x \<and> P x) xs"
  by (induction xs) simp_all

lemma find_cong_set: "(\<And>x. x \<in> set xs \<Longrightarrow> P x = Q x) \<Longrightarrow> find P xs = find Q xs"
  by (induction xs) simp_all

lemma hd_sort_key:
  fixes f :: "'a \<Rightarrow> 'b::linorder"
  assumes "xs \<noteq> []"
  shows "hd (sort_key f xs) \<in> set xs"
    and "\<forall>y\<in>set xs. f (hd (sort_key f xs)) \<le> f y"
    and "\<exists>rest. filter (\<lambda>x. f x = f (hd (sort_key f xs))) xs = hd (sort_key f xs) # rest"
proof -
  from assms have "sort_key f xs \<noteq> []" by (metis length_0_conv length_sort)
  then obtain p rest where s: "sort_key f xs = p # rest" by (cases "sort_key f xs") simp_all
  then have hd: "hd (sort_key f xs) = p" by simp
  have "set xs = set (p # rest)" using s by (metis set_sort)
  then have mem: "set xs = insert p (set rest)" by simp
  have "sorted (map f (p # rest))" using s by (metis sorted_sort_key)
  then have le: "\<forall>y\<in>set rest. f p \<le> f y" by simp
  show "hd (sort_key f xs) \<in> set xs" unfolding hd mem by simp
  show "\<forall>y\<in>set xs. f (hd (sort_key f xs)) \<le> f y" unfolding hd mem using le by simp
  have "filter (\<lambda>x. f x = f p) xs = filter (\<lambda>x. f x = f p) (p # rest)"
    using s by (metis sort_key_stable)
  then have "filter (\<lambda>x. f x = f p) xs = p # filter (\<lambda>x. f x = f p) rest" by simp
  then show "\<exists>rest. filter (\<lambda>x. f x = f (hd (sort_key f xs))) xs = hd (sort_key f xs) # rest"
    unfolding hd by blast
qed


lemma first_best_two_stage:
  "find (\<lambda>x. (ok x \<and> (\<forall>y\<in>set xs. ok y \<longrightarrow> k1 x \<le> k1 y)) \<and>
             (\<forall>z\<in>set xs. (ok z \<and> (\<forall>y\<in>set xs. ok y \<longrightarrow> k1 z \<le> k1 y)) \<longrightarrow> k2 x \<le> k2 z)) xs =
   first_best ok k1 k2 xs"
  unfolding first_best_def
proof (rule find_cong_set)
  fix x assume x: "x \<in> set xs"
  show "((ok x \<and> (\<forall>y\<in>set xs. ok y \<longrightarrow> k1 x \<le> k1 y)) \<and>
        (\<forall>z\<in>set xs. (ok z \<and> (\<forall>y\<in>set xs. ok y \<longrightarrow> k1 z \<le> k1 y)) \<longrightarrow> k2 x \<le> k2 z)) =
       (ok x \<and> (\<forall>y\<in>set xs. ok y \<longrightarrow> k1 x < k1 y \<or> (k1 x = k1 y \<and> k2 x \<le> k2 y)))"
    (is "?L = ?R")
  proof
    assume l: ?L
    show ?R
    proof (intro conjI ballI impI)
      show "ok x" using l by simp
    next
      fix y assume y: "y \<in> set xs" "ok y"
      with l have le: "k1 x \<le> k1 y" by blast
      show "k1 x < k1 y \<or> (k1 x = k1 y \<and> k2 x \<le> k2 y)"
      proof (cases "k1 x = k1 y")
        case True
        with l have "\<forall>w\<in>set xs. ok w \<longrightarrow> k1 y \<le> k1 w" by simp
        with l y True show ?thesis by blast
      next
        case False
        with le show ?thesis by simp
      qed
    qed
  next
    assume r: ?R
    have min: "\<forall>y\<in>set xs. ok y \<longrightarrow> k1 x \<le> k1 y" using r by force
    show ?L
    proof (intro conjI ballI impI)
      show "ok x" using r by simp
    next
      fix y assume "y \<in> set xs" "ok y"
      with min show "k1 x \<le> k1 y" by blast
    next
      fix z assume z: "z \<in> set xs" "ok z \<and> (\<forall>y\<in>set xs. ok y \<longrightarrow> k1 z \<le> k1 y)"
      with r x have "k1 z \<le> k1 x" by blast
      moreover from r z have "k1 x < k1 z \<or> (k1 x = k1 z \<and> k2 x \<le> k2 z)" by blast
      ultimately show "k2 x \<le> k2 z" by auto
    qed
  qed
qed

lemma first_best_None_iff: "first_best ok k1 k2 xs = None \<longleftrightarrow> (\<forall>x\<in>set xs. \<not> ok x)"
proof
  assume n: "first_best ok k1 k2 xs = None"
  show "\<forall>x\<in>set xs. \<not> ok x"
  proof (rule ccontr)
    assume "\<not> (\<forall>x\<in>set xs. \<not> ok x)"
    then have ne: "filter ok xs \<noteq> []" by (simp add: filter_empty_conv)
    let ?a = "hd (sort_key k1 (filter ok xs))"
    from hd_sort_key [OF ne, of k1] have a: "?a \<in> set xs" "ok ?a"
      "\<forall>y\<in>set xs. ok y \<longrightarrow> k1 ?a \<le> k1 y" by auto
    let ?M = "\<lambda>x. ok x \<and> (\<forall>y\<in>set xs. ok y \<longrightarrow> k1 x \<le> k1 y)"
    from a have ne2: "filter ?M xs \<noteq> []" by (auto simp: filter_empty_conv)
    let ?b = "hd (sort_key k2 (filter ?M xs))"
    from hd_sort_key [OF ne2, of k2] have b: "?b \<in> set xs" "?M ?b"
      "\<forall>z\<in>set xs. ?M z \<longrightarrow> k2 ?b \<le> k2 z" by auto
    then have "\<exists>x\<in>set xs. ?M x \<and> (\<forall>z\<in>set xs. ?M z \<longrightarrow> k2 x \<le> k2 z)" by blast
    then have "find (\<lambda>x. ?M x \<and> (\<forall>z\<in>set xs. ?M z \<longrightarrow> k2 x \<le> k2 z)) xs \<noteq> None"
      unfolding find_None_iff by blast
    then show False using n unfolding first_best_two_stage by simp
  qed
next
  assume "\<forall>x\<in>set xs. \<not> ok x"
  then show "first_best ok k1 k2 xs = None"
    by (simp add: first_best_def find_None_iff)
qed

section \<open>SJF: the states of the loop\<close>

text \<open>The list \<open>procs\<close> of the source, and the state of the loop after \<open>k\<close> passes of its body.\<close>

definition sjf_procs :: "process list \<Rightarrow> process list" where
  "sjf_procs ps = sort_key (\<lambda>p. (arrival p, burst p)) ps"

definition sjf_at :: "process list \<Rightarrow> nat \<Rightarrow> sjf_state" where
  "sjf_at ps k = (sjf_step ^^ k) (sjf_init (sjf_procs ps))"

lemma sjf_loop_funpow:
  "\<exists>k. sjf_loop s = (sjf_step ^^ k) s \<and> \<not> sjf_cond ((sjf_step ^^ k) s) \<and>
       (\<forall>j<k. sjf_cond ((sjf_step ^^ j) s))"
proof (induction s rule: sjf_loop.induct)
  case (1 s)
  show ?case
  proof (cases "sjf_cond s")
    case False
    then have "sjf_loop s = (sjf_step ^^ 0) s" by (simp add: sjf_loop.simps)
    with False show ?thesis by (intro exI [of _ 0]) simp
  next
    case True
    from "1.IH" [OF True] obtain k where k:
      "sjf_loop (sjf_step s) = (sjf_step ^^ k) (sjf_step s)"
      "\<not> sjf_cond ((sjf_step ^^ k) (sjf_step s))"
      "\<forall>j<k. sjf_cond ((sjf_step ^^ j) (sjf_step s))" by blast
    have "sjf_loop s = (sjf_step ^^ Suc k) s"
      using True k(1) by (simp add: sjf_loop.simps [of s] funpow_swap1)
    moreover have "\<not> sjf_cond ((sjf_step ^^ Suc k) s)"
      using k(2) by (simp add: funpow_swap1)
    moreover have "\<forall>j<Suc k. sjf_cond ((sjf_step ^^ j) s)"
    proof (intro allI impI)
      fix j assume "j < Suc k"
      then show "sjf_cond ((sjf_step ^^ j) s)"
        using True k(3) by (cases j) (simp_all add: funpow_swap1)
    qed
    ultimately show ?thesis by blast
  qed
qed

lemma move_arrived_eq:
  "move_arrived t rem rdy =
     (dropWhile (\<lambda>p. arrival p \<le> t) rem, rdy @ takeWhile (\<lambda>p. arrival p \<le> t) rem)"
  by (induction t rem rdy rule: move_arrived.induct) simp_all

text \<open>The two productive branches of the loop body.\<close>

lemma sjf_step_idle:
  assumes "ready s = []" "remaining s \<noteq> []" "clock s < arrival (hd (remaining s))"
  shows "sjf_step s = s\<lparr>clock := arrival (hd (remaining s)),
                        timeline := timeline s @ units IDLE (clock s) (arrival (hd (remaining s)))\<rparr>"
proof -
  from assms obtain q rest where r: "remaining s = q # rest" "clock s < arrival q"
    by (cases "remaining s") simp_all
  then show ?thesis using assms(1)
    by (simp add: sjf_step_def move_arrived_eq)
qed

lemma sjf_step_run:
  assumes "ready s @ takeWhile (\<lambda>p. arrival p \<le> clock s) (remaining s) \<noteq> []"
  shows "sjf_step s =
     (let ready1 = ready s @ takeWhile (\<lambda>p. arrival p \<le> clock s) (remaining s);
          p = hd (sort_key burst ready1)
      in s\<lparr>clock := clock s + burst p,
           timeline := timeline s @ units (pid p) (clock s) (clock s + burst p),
           gantt := gantt s @ [\<lparr>seg_pid = pid p, seg_start = clock s, seg_finish = clock s + burst p\<rparr>],
           results := results s @ [make_row p (clock s + burst p)],
           remaining := dropWhile (\<lambda>p. arrival p \<le> clock s) (remaining s),
           ready := tl (sort_key burst ready1)\<rparr>)"
proof -
  let ?r1 = "ready s @ takeWhile (\<lambda>p. arrival p \<le> clock s) (remaining s)"
  have "(?r1 = []) = False" using assms by simp
  then show ?thesis
    unfolding sjf_step_def move_arrived_eq Let_def prod.case by (simp only: if_False)
qed

lemma sjf_step_stop: "\<not> sjf_cond s \<Longrightarrow> sjf_step s = s"
  by (simp add: sjf_cond_def sjf_step_def)

lemma sjf_step_cases:
  assumes "sjf_cond s"
  obtains (idle) "ready s = []" "remaining s \<noteq> []" "clock s < arrival (hd (remaining s))"
    | (run) "ready s @ takeWhile (\<lambda>p. arrival p \<le> clock s) (remaining s) \<noteq> []"
proof (cases "ready s @ takeWhile (\<lambda>p. arrival p \<le> clock s) (remaining s) = []")
  case False
  then show ?thesis by (rule run)
next
  case True
  then have r: "ready s = []" and t: "takeWhile (\<lambda>p. arrival p \<le> clock s) (remaining s) = []"
    by simp_all
  with assms have ne: "remaining s \<noteq> []" by (simp add: sjf_cond_def)
  then obtain q rest where q: "remaining s = q # rest" by (cases "remaining s") simp_all
  with t have "clock s < arrival q" by (simp split: if_splits)
  with q have "clock s < arrival (hd (remaining s))" by simp
  with r ne show ?thesis by (rule idle)
qed


lemma sorted_dropWhile_gt:
  "sorted (map f xs) \<Longrightarrow> x \<in> set (dropWhile (\<lambda>y. f y \<le> t) xs) \<Longrightarrow> (t::int) < f x"
  by (induction xs) (auto split: if_splits)

lemma set_takeWhile_sorted:
  "sorted (map f xs) \<Longrightarrow> set (takeWhile (\<lambda>y. f y \<le> t) xs) = {y \<in> set xs. f y \<le> (t::int)}"
proof -
  assume s: "sorted (map f xs)"
  have "set xs = set (takeWhile (\<lambda>y. f y \<le> t) xs) \<union> set (dropWhile (\<lambda>y. f y \<le> t) xs)"
    by (metis set_append takeWhile_dropWhile_id)
  moreover have "\<forall>y\<in>set (takeWhile (\<lambda>y. f y \<le> t) xs). f y \<le> t"
    by (auto dest: set_takeWhileD)
  moreover have "\<forall>y\<in>set (dropWhile (\<lambda>y. f y \<le> t) xs). \<not> f y \<le> t"
    using sorted_dropWhile_gt [OF s] by fastforce
  ultimately show ?thesis by blast
qed

lemma sorted_arrival_sjf_procs: "sorted (map arrival (sjf_procs ps))"
proof -
  have "sorted (map (\<lambda>p. (arrival p, burst p)) (sjf_procs ps))"
    by (simp add: sjf_procs_def)
  then have "sorted_wrt (\<lambda>x y. (arrival x, burst x) \<le> (arrival y, burst y)) (sjf_procs ps)"
    by (simp add: sorted_map)
  then have "sorted_wrt (\<lambda>x y. arrival x \<le> arrival y) (sjf_procs ps)"
    by (rule sorted_wrt_mono_rel [rotated]) (auto simp: less_eq_prod_def)
  then show ?thesis by (simp add: sorted_map)
qed


lemma sjf_at_Suc: "sjf_at ps (Suc k) = sjf_step (sjf_at ps k)"
  by (simp add: sjf_at_def)

lemma sjf_scheduler_at:
  "\<exists>n. (\<forall>k<n. sjf_cond (sjf_at ps k)) \<and> \<not> sjf_cond (sjf_at ps n) \<and>
       sjf_nonpreemptive_scheduler ps =
         (gantt (sjf_at ps n), results (sjf_at ps n), timeline (sjf_at ps n))"
proof (cases "ps = []")
  case True
  then have "sjf_at ps 0 = sjf_init []" by (simp add: sjf_at_def sjf_procs_def)
  then have "\<not> sjf_cond (sjf_at ps 0) \<and>
       sjf_nonpreemptive_scheduler ps =
         (gantt (sjf_at ps 0), results (sjf_at ps 0), timeline (sjf_at ps 0))"
    using True by (simp add: sjf_cond_def sjf_init_def sjf_nonpreemptive_scheduler_def)
  then show ?thesis by (intro exI [of _ 0]) simp
next
  case False
  from sjf_loop_funpow [of "sjf_init (sjf_procs ps)"] obtain n where
    n: "sjf_loop (sjf_init (sjf_procs ps)) = sjf_at ps n" "\<not> sjf_cond (sjf_at ps n)"
       "\<forall>j<n. sjf_cond (sjf_at ps j)"
    unfolding sjf_at_def by blast
  from False n(1) have "sjf_nonpreemptive_scheduler ps =
         (gantt (sjf_at ps n), results (sjf_at ps n), timeline (sjf_at ps n))"
    by (simp add: sjf_nonpreemptive_scheduler_def Let_def sjf_procs_def)
  with n(2,3) show ?thesis by blast
qed

text \<open>
  The facts about the clock, the rows and the timeline that hold at every pass, for any
  list with non-negative bursts (ids need not be distinct).
\<close>

definition sjf_sound :: "process list \<Rightarrow> sjf_state \<Rightarrow> bool" where
  "sjf_sound procs s \<longleftrightarrow>
     set (remaining s) \<union> set (ready s) \<subseteq> set procs \<and>
     length (results s) + length (remaining s) + length (ready s) = length procs \<and>
     (\<forall>r\<in>set (ready s). arrival r \<le> clock s) \<and>
     (\<forall>r\<in>set (results s). row_ok r \<and> CT r \<le> clock s) \<and>
     0 \<le> clock s \<and> map tl_time (timeline s) = [0..clock s - 1] \<and>
     (\<forall>u\<in>set (timeline s). running u = IDLE \<or> running u \<in> pid ` set procs) \<and>
     (\<not> sjf_cond s \<and> results s \<noteq> [] \<longrightarrow> CT (last (results s)) = clock s)"

lemma sjf_sound_init: "sjf_sound procs (sjf_init procs)"
  by (simp add: sjf_sound_def sjf_init_def)

lemma sjf_sound_step:
  assumes nb: "\<forall>p\<in>set procs. 0 \<le> burst p" and inv: "sjf_sound procs s"
  shows "sjf_sound procs (sjf_step s)"
proof (cases "sjf_cond s")
  case False
  with inv show ?thesis by (simp add: sjf_step_stop)
next
  case True
  from inv have i: "set (remaining s) \<union> set (ready s) \<subseteq> set procs"
    "length (results s) + length (remaining s) + length (ready s) = length procs"
    "\<forall>r\<in>set (ready s). arrival r \<le> clock s"
    "\<forall>r\<in>set (results s). row_ok r \<and> CT r \<le> clock s"
    "0 \<le> clock s" "map tl_time (timeline s) = [0..clock s - 1]"
    "\<forall>u\<in>set (timeline s). running u = IDLE \<or> running u \<in> pid ` set procs"
    by (simp_all add: sjf_sound_def)
  from True show ?thesis
  proof (cases rule: sjf_step_cases)
    case idle
    let ?a = "arrival (hd (remaining s))"
    have st: "sjf_step s = s\<lparr>clock := ?a, timeline := timeline s @ units IDLE (clock s) ?a\<rparr>"
      by (rule sjf_step_idle [OF idle])
    have c: "sjf_cond (sjf_step s)" using idle(2) by (simp add: st sjf_cond_def)
    have t: "map tl_time (timeline (sjf_step s)) = [0..clock (sjf_step s) - 1]"
      using i(5,6) idle(3) by (simp add: st upto_glue)
    have o: "\<forall>u\<in>set (timeline (sjf_step s)). running u = IDLE \<or> running u \<in> pid ` set procs"
      using i(7) by (auto simp: st dest: units_running)
    have r: "\<forall>r\<in>set (results (sjf_step s)). row_ok r \<and> CT r \<le> clock (sjf_step s)"
      using i(4) idle(3) by (auto simp: st)
    show ?thesis unfolding sjf_sound_def
      using i(1,2,5) idle c t o r by (simp add: st)
  next
    case run
    let ?moved = "takeWhile (\<lambda>p. arrival p \<le> clock s) (remaining s)"
    let ?rem1 = "dropWhile (\<lambda>p. arrival p \<le> clock s) (remaining s)"
    let ?ready1 = "ready s @ ?moved"
    let ?S = "sort_key burst ?ready1"
    let ?p = "hd ?S"
    let ?fin = "clock s + burst ?p"
    have st: "clock (sjf_step s) = ?fin" "remaining (sjf_step s) = ?rem1"
      "ready (sjf_step s) = tl ?S"
      "results (sjf_step s) = results s @ [make_row ?p ?fin]"
      "timeline (sjf_step s) = timeline s @ units (pid ?p) (clock s) ?fin"
      unfolding sjf_step_run [OF run] Let_def by simp_all
    from hd_sort_key(1) [OF run, of burst] have pin: "?p \<in> set ?ready1" .
    have r1: "\<forall>r\<in>set ?ready1. arrival r \<le> clock s \<and> r \<in> set procs"
      using i(1,3) by (auto dest: set_takeWhileD)
    with pin have pa: "arrival ?p \<le> clock s" and pp: "?p \<in> set procs" by blast+
    with nb have pb: "0 \<le> burst ?p" by simp
    have "set (tl ?S) \<subseteq> set ?S" by (metis list.set_sel(2) subsetI tl_Nil)
    then have tlsub: "set (tl ?S) \<subseteq> set ?ready1" by simp
    have len: "length ?rem1 + length ?moved = length (remaining s)"
      by (metis add.commute length_append takeWhile_dropWhile_id)
    have "length ?S = length (ready s) + length ?moved" by simp
    moreover have "?S \<noteq> []" using run by (metis length_0_conv length_sort)
    ultimately have ltl: "Suc (length (tl ?S)) = length (ready s) + length ?moved"
      by (metis length_Cons list.exhaust_sel)
    have a: "set (remaining (sjf_step s)) \<union> set (ready (sjf_step s)) \<subseteq> set procs"
      using tlsub r1 i(1) by (auto simp: st dest: set_dropWhileD)
    have b: "length (results (sjf_step s)) + length (remaining (sjf_step s)) +
        length (ready (sjf_step s)) = length procs"
      using i(2) len ltl by (simp add: st)
    have c: "\<forall>r\<in>set (ready (sjf_step s)). arrival r \<le> clock (sjf_step s)"
      using tlsub r1 pb by (fastforce simp: st)
    have d: "\<forall>r\<in>set (results (sjf_step s)). row_ok r \<and> CT r \<le> clock (sjf_step s)"
      using i(4) pa pb by (auto simp: st intro!: make_row_ok)
    have e: "0 \<le> clock (sjf_step s)" using i(5) pb by (simp add: st)
    have f: "map tl_time (timeline (sjf_step s)) = [0..clock (sjf_step s) - 1]"
      using i(5,6) pb by (simp add: st upto_glue)
    have g: "\<forall>u\<in>set (timeline (sjf_step s)). running u = IDLE \<or> running u \<in> pid ` set procs"
      using i(7) pp by (auto simp: st dest: units_running)
    have h: "CT (last (results (sjf_step s))) = clock (sjf_step s)" by (simp add: st)
    from a b c d e f g h show ?thesis unfolding sjf_sound_def by blast
  qed
qed

lemma sjf_sound_at:
  assumes "\<forall>p\<in>set ps. 0 \<le> burst p"
  shows "sjf_sound (sjf_procs ps) (sjf_at ps k)"
proof (induction k)
  case 0
  show ?case by (simp add: sjf_at_def sjf_sound_init)
next
  case (Suc k)
  have "\<forall>p\<in>set (sjf_procs ps). 0 \<le> burst p" using assms by (simp add: sjf_procs_def)
  from sjf_sound_step [OF this Suc] show ?case by (simp add: sjf_at_def)
qed

text \<open>The facts about the output of SJF used by claims C5 and C6.\<close>

lemma sjf_output_sound:
  assumes nb: "\<forall>p\<in>set ps. 0 \<le> burst p"
    and out: "sjf_nonpreemptive_scheduler ps = (g, rows, tline)"
  shows "\<forall>r\<in>set rows. row_ok r"
    and "\<forall>u\<in>set tline. running u = IDLE \<or> running u \<in> pid ` set ps"
    and "ps \<noteq> [] \<Longrightarrow> rows \<noteq> [] \<and> map tl_time tline = [0..Max (set (map CT rows)) - 1]"
proof -
  from sjf_scheduler_at [of ps] out obtain n where
    n: "\<not> sjf_cond (sjf_at ps n)" "rows = results (sjf_at ps n)"
       "tline = timeline (sjf_at ps n)" by auto
  let ?s = "sjf_at ps n"
  from sjf_sound_at [OF nb, of n] have i:
    "length (results ?s) + length (remaining ?s) + length (ready ?s) = length (sjf_procs ps)"
    "\<forall>r\<in>set (results ?s). row_ok r \<and> CT r \<le> clock ?s"
    "map tl_time (timeline ?s) = [0..clock ?s - 1]"
    "\<forall>u\<in>set (timeline ?s). running u = IDLE \<or> running u \<in> pid ` set (sjf_procs ps)"
    "\<not> sjf_cond ?s \<and> results ?s \<noteq> [] \<longrightarrow> CT (last (results ?s)) = clock ?s"
    by (simp_all add: sjf_sound_def)
  show "\<forall>r\<in>set rows. row_ok r" using i(2) n(2) by simp
  show "\<forall>u\<in>set tline. running u = IDLE \<or> running u \<in> pid ` set ps"
    using i(4) n(3) by (simp add: sjf_procs_def)
  show "rows \<noteq> [] \<and> map tl_time tline = [0..Max (set (map CT rows)) - 1]" if "ps \<noteq> []"
  proof -
    from n(1) have "remaining ?s = []" "ready ?s = []" by (simp_all add: sjf_cond_def)
    with i(1) that have ne: "results ?s \<noteq> []" by (auto simp: sjf_procs_def)
    with i(5) n(1) have l: "CT (last (results ?s)) = clock ?s" by simp
    have "Max (set (map CT (results ?s))) = clock ?s"
    proof (rule Max_eqI)
      show "finite (set (map CT (results ?s)))" by simp
      show "y \<le> clock ?s" if "y \<in> set (map CT (results ?s))" for y
        using that i(2) by auto
      show "clock ?s \<in> set (map CT (results ?s))"
        using ne l by (metis image_eqI last_in_set list.set_map)
    qed
    with ne i(3) n(2,3) show ?thesis by simp
  qed
qed

section \<open>SJF: the selection rule\<close>

text \<open>Stable sorts are determined by their three properties.\<close>

lemma sort_key_unique:
  fixes f :: "'a \<Rightarrow> 'k::linorder"
  assumes "mset ys = mset xs" and "sorted (map f ys)"
    and "\<And>k. filter (\<lambda>x. f x = k) ys = filter (\<lambda>x. f x = k) xs"
  shows "sort_key f xs = ys"
proof (rule properties_for_sort_key [OF assms(1) _ assms(2)])
  fix k assume "k \<in> set ys"
  have "(\<lambda>x. f k = f x) = (\<lambda>x. f x = f k)" by auto
  then show "filter (\<lambda>x. f k = f x) ys = filter (\<lambda>x. f k = f x) xs"
    using assms(3) [of "f k"] by simp
qed

lemma takeWhile_sorted_filter:
  "sorted (map f xs) \<Longrightarrow> takeWhile (\<lambda>x. f x \<le> (t::int)) xs = filter (\<lambda>x. f x \<le> t) xs"
proof (induction xs)
  case Nil
  then show ?case by simp
next
  case (Cons x xs)
  show ?case
  proof (cases "f x \<le> t")
    case True
    with Cons show ?thesis by simp
  next
    case False
    with Cons.prems have "\<forall>y\<in>set xs. \<not> f y \<le> t" by auto
    then have "filter (\<lambda>x. f x \<le> t) xs = []" by (simp add: filter_empty_conv)
    with False show ?thesis by simp
  qed
qed

lemma dropWhile_sorted_filter:
  "sorted (map f xs) \<Longrightarrow> dropWhile (\<lambda>x. f x \<le> (t::int)) xs = filter (\<lambda>x. t < f x) xs"
proof (induction xs)
  case Nil
  then show ?case by simp
next
  case (Cons x xs)
  show ?case
  proof (cases "f x \<le> t")
    case True
    with Cons show ?thesis by simp
  next
    case False
    with Cons.prems have "\<forall>y\<in>set xs. t < f y" by auto
    then have "filter (\<lambda>x. t < f x) xs = xs" by (simp add: filter_id_conv)
    with False show ?thesis by simp
  qed
qed

lemma sorted_pair_fst:
  fixes g :: "'a \<Rightarrow> int" and h :: "'a \<Rightarrow> int"
  shows "sorted (map (\<lambda>x. (g x, h x)) xs) \<Longrightarrow> sorted (map g xs)"
  by (induction xs) (auto simp: less_eq_prod_def)

lemma sorted_pair_snd:
  fixes g :: "'a \<Rightarrow> int" and h :: "'a \<Rightarrow> int"
  shows "sorted (map (\<lambda>x. (g x, h x)) xs) \<Longrightarrow> sorted (map h (filter (\<lambda>x. g x = b) xs))"
  by (induction xs) (auto simp: less_eq_prod_def)

lemma sorted_pair_intro:
  fixes g :: "'a \<Rightarrow> int" and h :: "'a \<Rightarrow> int"
  assumes "sorted (map g ys)" and "\<And>b. sorted (map h (filter (\<lambda>x. g x = b) ys))"
  shows "sorted (map (\<lambda>x. (g x, h x)) ys)"
  using assms
proof (induction ys)
  case Nil
  then show ?case by simp
next
  case (Cons y ys)
  have tl: "sorted (map h (filter (\<lambda>x. g x = b) ys))" for b
    using Cons.prems(2) [of b] by (simp split: if_splits)
  from Cons.prems(1) have s: "sorted (map g ys)" and le: "\<forall>z\<in>set ys. g y \<le> g z" by simp_all
  have "(g y, h y) \<le> (g z, h z)" if z: "z \<in> set ys" for z
  proof (cases "g y = g z")
    case True
    from Cons.prems(2) [of "g y"] have "\<forall>w\<in>set (filter (\<lambda>x. g x = g y) ys). h y \<le> h w"
      by simp
    with z True have "h y \<le> h z" by simp
    with True show ?thesis by (simp add: less_eq_prod_def)
  next
    case False
    with le z have "g y < g z" by force
    then show ?thesis by (simp add: less_eq_prod_def)
  qed
  with Cons.IH [OF s tl] show ?case by simp
qed

lemma tl_sort_key:
  fixes f :: "'a \<Rightarrow> 'k::linorder"
  assumes "xs \<noteq> []"
  shows "tl (sort_key f xs) = sort_key f (remove1 (hd (sort_key f xs)) xs)"
proof -
  let ?S = "sort_key f xs" and ?p = "hd (sort_key f xs)"
  from assms have "?S \<noteq> []" by (metis length_0_conv length_sort)
  then have S: "?S = ?p # tl ?S" by simp
  have m: "mset (tl ?S) = mset (remove1 ?p xs)"
  proof -
    have "mset ?S = add_mset ?p (mset (tl ?S))" by (subst S) simp
    then have "mset xs = add_mset ?p (mset (tl ?S))" by simp
    then show ?thesis by simp
  qed
  have "sorted (map f ?S)" by simp
  then have "sorted (map f (?p # tl ?S))" using S by simp
  then have s: "sorted (map f (tl ?S))" by simp
  have st: "filter (\<lambda>x. f x = k) (tl ?S) = filter (\<lambda>x. f x = k) (remove1 ?p xs)" for k
  proof -
    have e: "filter (\<lambda>x. f x = k) xs = filter (\<lambda>x. f x = k) (?p # tl ?S)"
      using S sort_key_stable [of f k xs] by simp
    show ?thesis
    proof (cases "f ?p = k")
      case True
      with e have "filter (\<lambda>x. f x = k) xs = ?p # filter (\<lambda>x. f x = k) (tl ?S)" by simp
      then show ?thesis by (simp add: filter_remove1)
    next
      case False
      with e have e': "filter (\<lambda>x. f x = k) xs = filter (\<lambda>x. f x = k) (tl ?S)" by simp
      from False have "?p \<notin> set (filter (\<lambda>x. f x = k) xs)" by auto
      then have "remove1 ?p (filter (\<lambda>x. f x = k) xs) = filter (\<lambda>x. f x = k) xs"
        by (rule remove1_idem)
      with e' show ?thesis by (simp add: filter_remove1)
    qed
  qed
  from sort_key_unique [OF m s st] show ?thesis by simp
qed

lemma first_best_hd:
  assumes "filter ok xs \<noteq> []"
  shows "first_best ok k1 k2 xs = Some (hd (sort_key (\<lambda>x. (k1 x, k2 x)) (filter ok xs)))"
proof -
  let ?K = "\<lambda>x. (k1 x, k2 x)"
  let ?p = "hd (sort_key ?K (filter ok xs))"
  from hd_sort_key [OF assms, of ?K] obtain rest where
    pin: "?p \<in> set (filter ok xs)" and pmin: "\<forall>y\<in>set (filter ok xs). ?K ?p \<le> ?K y"
    and fl: "filter (\<lambda>x. ?K x = ?K ?p) (filter ok xs) = ?p # rest" by blast
  have "first_best ok k1 k2 xs = find (\<lambda>x. ok x \<and> ?K x = ?K ?p) xs"
    unfolding first_best_def
  proof (rule find_cong_set)
    fix x assume x: "x \<in> set xs"
    show "(ok x \<and> (\<forall>y\<in>set xs. ok y \<longrightarrow> k1 x < k1 y \<or> k1 x = k1 y \<and> k2 x \<le> k2 y)) =
          (ok x \<and> ?K x = ?K ?p)"
    proof
      assume a: "ok x \<and> (\<forall>y\<in>set xs. ok y \<longrightarrow> k1 x < k1 y \<or> k1 x = k1 y \<and> k2 x \<le> k2 y)"
      from pin have "?p \<in> set xs" "ok ?p" by simp_all
      with a have "k1 x < k1 ?p \<or> k1 x = k1 ?p \<and> k2 x \<le> k2 ?p" by blast
      then have 1: "?K x \<le> ?K ?p" by (auto simp: less_eq_prod_def)
      from a x pmin have 2: "?K ?p \<le> ?K x" by simp
      from 1 2 have "?K x = ?K ?p" by (rule order.antisym)
      with a show "ok x \<and> ?K x = ?K ?p" by blast
    next
      assume b: "ok x \<and> ?K x = ?K ?p"
      have "k1 x < k1 y \<or> k1 x = k1 y \<and> k2 x \<le> k2 y" if "y \<in> set xs" "ok y" for y
      proof -
        from that pmin have "?K ?p \<le> ?K y" by simp
        with b have "?K x \<le> ?K y" by simp
        then show ?thesis by (auto simp: less_eq_prod_def)
      qed
      with b show "ok x \<and> (\<forall>y\<in>set xs. ok y \<longrightarrow> k1 x < k1 y \<or> k1 x = k1 y \<and> k2 x \<le> k2 y)"
        by blast
    qed
  qed
  also have "\<dots> = find (\<lambda>x. ?K x = ?K ?p) (filter ok xs)" by (simp add: find_in_filter)
  also have "\<dots> = Some ?p" using fl by (simp add: find_filter_hd)
  finally show ?thesis .
qed


text \<open>
  Sorting by the first key a list made of a part sorted by (first, second) key whose second
  keys are at most \<open>c\<close>, followed by a part sorted by (second, first) key whose second keys
  are above \<open>c\<close>, sorts the whole by (first, second) key.
\<close>

lemma sort_key_merge:
  fixes g :: "'a \<Rightarrow> int" and h :: "'a \<Rightarrow> int"
  shows "sort_key g (sort_key (\<lambda>x. (g x, h x)) (filter (\<lambda>x. h x \<le> c) V) @
                     sort_key (\<lambda>x. (h x, g x)) (filter (\<lambda>x. c < h x) V)) =
         sort_key (\<lambda>x. (g x, h x)) V"
proof -
  let ?A = "sort_key (\<lambda>x. (g x, h x)) (filter (\<lambda>x. h x \<le> c) V)"
  let ?B = "sort_key (\<lambda>x. (h x, g x)) (filter (\<lambda>x. c < h x) V)"
  let ?ys = "sort_key g (?A @ ?B)"
  have part: "mset (filter (\<lambda>x. h x \<le> c) V) + mset (filter (\<lambda>x. c < h x) V) = mset V"
    by (induction V) auto
  have m: "mset ?ys = mset V" using part by simp
  have fb: "filter (\<lambda>x. g x = b) ?ys = filter (\<lambda>x. g x = b) ?A @ filter (\<lambda>x. g x = b) ?B"
    for b
    using sort_key_stable [of g b "?A @ ?B"] by simp
  have sA: "sorted (map h (filter (\<lambda>x. g x = b) ?A))" for b
    by (rule sorted_pair_snd) simp
  have "sorted (map (\<lambda>x. (h x, g x)) ?B)" by simp
  then have "sorted (map h ?B)" by (rule sorted_pair_fst)
  then have sB: "sorted (map h (filter (\<lambda>x. g x = b) ?B))" for b
    by (rule sorted_filter)
  have cross: "h x \<le> h y"
    if "x \<in> set (filter (\<lambda>x. g x = b) ?A)" "y \<in> set (filter (\<lambda>x. g x = b) ?B)" for x y b
    using that by auto
  have sh: "sorted (map h (filter (\<lambda>x. g x = b) ?ys))" for b
    unfolding fb map_append sorted_append using sA sB cross [of _ b] by auto
  have s: "sorted (map (\<lambda>x. (g x, h x)) ?ys)"
    by (rule sorted_pair_intro) (simp, rule sh)
  have st: "filter (\<lambda>x. (g x, h x) = k) ?ys = filter (\<lambda>x. (g x, h x) = k) V" for k
  proof -
    obtain b a where k: "k = (b, a)" by (cases k)
    have "filter (\<lambda>x. (g x, h x) = k) ?ys = filter (\<lambda>x. h x = a) (filter (\<lambda>x. g x = b) ?ys)"
      by (simp add: k conj_commute)
    also have "\<dots> = filter (\<lambda>x. (g x, h x) = (b, a)) ?A @ filter (\<lambda>x. (h x, g x) = (a, b)) ?B"
      unfolding fb by (simp add: conj_commute)
    also have "\<dots> = filter (\<lambda>x. (g x, h x) = (b, a)) (filter (\<lambda>x. h x \<le> c) V) @
        filter (\<lambda>x. (h x, g x) = (a, b)) (filter (\<lambda>x. c < h x) V)"
      by (simp only: sort_key_stable)
    also have "\<dots> = filter (\<lambda>x. (g x, h x) = k) V"
    proof (cases "a \<le> c")
      case True
      have "filter (\<lambda>x. (h x, g x) = (a, b)) (filter (\<lambda>x. c < h x) V) = []"
        using True by (auto simp: filter_empty_conv)
      moreover have "filter (\<lambda>x. (g x, h x) = (b, a)) (filter (\<lambda>x. h x \<le> c) V) =
          filter (\<lambda>x. (g x, h x) = k) V"
        unfolding filter_filter k using True by (intro filter_cong) auto
      ultimately show ?thesis by simp
    next
      case False
      have "filter (\<lambda>x. (g x, h x) = (b, a)) (filter (\<lambda>x. h x \<le> c) V) = []"
        using False by (auto simp: filter_empty_conv)
      moreover have "filter (\<lambda>x. (h x, g x) = (a, b)) (filter (\<lambda>x. c < h x) V) =
          filter (\<lambda>x. (g x, h x) = k) V"
        unfolding filter_filter k using False by (intro filter_cong) auto
      ultimately show ?thesis by simp
    qed
    finally show ?thesis .
  qed
  from sort_key_unique [OF m s st] show ?thesis by simp
qed


text \<open>
  What a pass of the loop body does, from the state \<open>s\<close> at the head of the loop to the
  state \<open>s'\<close> after the pass, where \<open>unrun\<close> lists the processes that have not yet run, in
  input order; in the source's own terms (the units and the row it appends).
\<close>

definition sjf_effect :: "process list \<Rightarrow> sjf_state \<Rightarrow> sjf_state \<Rightarrow> bool" where
  "sjf_effect unrun s s' =
     (case first_best (\<lambda>p. arrival p \<le> clock s) burst arrival unrun of
        None \<Rightarrow>
          (\<exists>q\<in>set unrun. clock s' = arrival q) \<and>
          (\<forall>q\<in>set unrun. clock s' \<le> arrival q) \<and>
          timeline s' = timeline s @ units IDLE (clock s) (clock s') \<and>
          gantt s' = gantt s \<and> results s' = results s
      | Some p \<Rightarrow>
          gantt s' = gantt s @
            [\<lparr>seg_pid = pid p, seg_start = clock s, seg_finish = clock s + burst p\<rparr>] \<and>
          results s' = results s @ [make_row p (clock s + burst p)] \<and>
          timeline s' = timeline s @ units (pid p) (clock s) (clock s + burst p) \<and>
          clock s' = clock s + burst p)"

text \<open>
  The processes that have not yet run after \<open>k\<close> passes, in input order: the input list,
  from which every pass removes the process it selects.
\<close>

fun sjf_unrun :: "process list \<Rightarrow> nat \<Rightarrow> process list" where
  "sjf_unrun ps 0 = ps"
| "sjf_unrun ps (Suc k) =
     (case first_best (\<lambda>p. arrival p \<le> clock (sjf_at ps k)) burst arrival (sjf_unrun ps k) of
        None \<Rightarrow> sjf_unrun ps k
      | Some p \<Rightarrow> remove1 p (sjf_unrun ps k))"

text \<open>
  What the two lists of the loop hold: with \<open>c\<close> the clock value at which processes were
  last moved, \<open>ready\<close> is the not yet run processes that arrived by \<open>c\<close>, sorted by burst and
  then arrival, and \<open>remaining\<close> is those arriving later, sorted by arrival and then burst;
  both sorts keep the input order of equal keys.
\<close>

definition sjf_holds :: "int \<Rightarrow> process list \<Rightarrow> sjf_state \<Rightarrow> bool" where
  "sjf_holds c unrun s \<longleftrightarrow>
     ready s = sort_key (\<lambda>p. (burst p, arrival p)) (filter (\<lambda>p. arrival p \<le> c) unrun) \<and>
     remaining s = sort_key (\<lambda>p. (arrival p, burst p)) (filter (\<lambda>p. c < arrival p) unrun) \<and>
     c \<le> clock s"

lemma sjf_pass:
  assumes nb: "\<forall>p\<in>set U. 0 \<le> burst p" and inv: "sjf_holds c U s" and cond: "sjf_cond s"
  shows "sjf_effect U s (sjf_step s) \<and>
         (case first_best (\<lambda>p. arrival p \<le> clock s) burst arrival U of
            None \<Rightarrow> sjf_holds c U (sjf_step s)
          | Some p \<Rightarrow> p \<in> set U \<and> sjf_holds (clock s) (remove1 p U) (sjf_step s))"
proof -
  let ?t = "clock s"
  let ?V = "filter (\<lambda>p. arrival p \<le> ?t) U"
  let ?Kr = "\<lambda>p. (burst p, arrival p)" and ?Km = "\<lambda>p. (arrival p, burst p)"
  from inv have rd: "ready s = sort_key ?Kr (filter (\<lambda>p. arrival p \<le> c) U)"
    and rm: "remaining s = sort_key ?Km (filter (\<lambda>p. c < arrival p) U)"
    and ct: "c \<le> ?t" by (simp_all add: sjf_holds_def)
  have "sorted (map ?Km (remaining s))" unfolding rm by simp
  then have srt: "sorted (map arrival (remaining s))" by (rule sorted_pair_fst)
  have f1: "filter (\<lambda>p. arrival p \<le> c) ?V = filter (\<lambda>p. arrival p \<le> c) U"
    unfolding filter_filter using ct by (intro filter_cong) auto
  have f2: "filter (\<lambda>p. arrival p \<le> ?t) (filter (\<lambda>p. c < arrival p) U) =
      filter (\<lambda>p. c < arrival p) ?V"
    unfolding filter_filter by (intro filter_cong) auto
  have f3: "filter (\<lambda>p. ?t < arrival p) (filter (\<lambda>p. c < arrival p) U) =
      filter (\<lambda>p. ?t < arrival p) U"
    unfolding filter_filter using ct by (intro filter_cong) auto
  have moved: "takeWhile (\<lambda>p. arrival p \<le> ?t) (remaining s) =
      sort_key ?Km (filter (\<lambda>p. c < arrival p) ?V)"
  proof -
    have "takeWhile (\<lambda>p. arrival p \<le> ?t) (remaining s) =
        filter (\<lambda>p. arrival p \<le> ?t) (remaining s)"
      by (rule takeWhile_sorted_filter [OF srt])
    also have "\<dots> = sort_key ?Km
        (filter (\<lambda>p. arrival p \<le> ?t) (filter (\<lambda>p. c < arrival p) U))"
      unfolding rm by (rule filter_sort)
    finally show ?thesis unfolding f2 .
  qed
  have rem1: "dropWhile (\<lambda>p. arrival p \<le> ?t) (remaining s) =
      sort_key ?Km (filter (\<lambda>p. ?t < arrival p) U)"
  proof -
    have "dropWhile (\<lambda>p. arrival p \<le> ?t) (remaining s) =
        filter (\<lambda>p. ?t < arrival p) (remaining s)"
      by (rule dropWhile_sorted_filter [OF srt])
    also have "\<dots> = sort_key ?Km
        (filter (\<lambda>p. ?t < arrival p) (filter (\<lambda>p. c < arrival p) U))"
      unfolding rm by (rule filter_sort)
    finally show ?thesis unfolding f3 .
  qed
  let ?ready1 = "ready s @ takeWhile (\<lambda>p. arrival p \<le> ?t) (remaining s)"
  have r1: "?ready1 = sort_key ?Kr (filter (\<lambda>p. arrival p \<le> c) ?V) @
      sort_key ?Km (filter (\<lambda>p. c < arrival p) ?V)"
    unfolding moved rd f1 ..
  have srt1: "sort_key burst ?ready1 = sort_key ?Kr ?V"
    unfolding r1 by (rule sort_key_merge)
  have "length ?ready1 = length (sort_key burst ?ready1)" by simp
  also have "\<dots> = length ?V" unfolding srt1 by simp
  finally have "length ?ready1 = length ?V" .
  then have empty: "?ready1 = [] \<longleftrightarrow> ?V = []" by (metis length_0_conv)
  from cond show ?thesis
  proof (cases rule: sjf_step_cases)
    case idle
    let ?q = "hd (remaining s)"
    from idle have "?ready1 = []" by (cases "remaining s") simp_all
    with empty have V: "?V = []" by blast
    then have late: "\<forall>x\<in>set U. ?t < arrival x" by (auto simp: filter_empty_conv)
    then have none: "first_best (\<lambda>p. arrival p \<le> ?t) burst arrival U = None"
      unfolding first_best_None_iff by auto
    have st: "sjf_step s = s\<lparr>clock := arrival ?q,
        timeline := timeline s @ units IDLE ?t (arrival ?q)\<rparr>"
      by (rule sjf_step_idle [OF idle])
    have all: "filter (\<lambda>p. c < arrival p) U = U"
      using late ct by (auto simp: filter_id_conv)
    then have setr: "set (remaining s) = set U" by (simp add: rm)
    from idle(2) have qin: "?q \<in> set U" using setr by auto
    have least: "arrival ?q \<le> arrival x" if "x \<in> set U" for x
    proof -
      from idle(2) obtain r rest where r: "remaining s = r # rest"
        by (cases "remaining s") simp_all
      from that setr have "x \<in> set (remaining s)" by simp
      with srt r show ?thesis by auto
    qed
    have h: "sjf_holds c U (sjf_step s)"
      using rd rm ct idle(3) by (simp add: sjf_holds_def st)
    have d: "sjf_effect U s (sjf_step s)"
      unfolding sjf_effect_def none option.case
      using qin least by (auto simp: st)
    from h d show ?thesis by (simp add: none)
  next
    case run
    with empty have Vne: "?V \<noteq> []" by blast
    let ?p = "hd (sort_key ?Kr ?V)"
    from first_best_hd [of "\<lambda>p. arrival p \<le> ?t" U burst arrival] Vne
    have some: "first_best (\<lambda>p. arrival p \<le> ?t) burst arrival U = Some ?p" by simp
    from hd_sort_key(1) [OF Vne, of ?Kr] have pV: "?p \<in> set ?V" .
    then have pU: "?p \<in> set U" and pa: "arrival ?p \<le> ?t" by simp_all
    with nb have pb: "0 \<le> burst ?p" by simp
    have st: "sjf_step s =
        s\<lparr>clock := ?t + burst ?p,
          timeline := timeline s @ units (pid ?p) ?t (?t + burst ?p),
          gantt := gantt s @
            [\<lparr>seg_pid = pid ?p, seg_start = ?t, seg_finish = ?t + burst ?p\<rparr>],
          results := results s @ [make_row ?p (?t + burst ?p)],
          remaining := sort_key ?Km (filter (\<lambda>p. ?t < arrival p) U),
          ready := tl (sort_key ?Kr ?V)\<rparr>"
      unfolding sjf_step_run [OF run] Let_def srt1 rem1 ..
    have "tl (sort_key ?Kr ?V) = sort_key ?Kr (remove1 ?p ?V)" by (rule tl_sort_key [OF Vne])
    then have rd': "tl (sort_key ?Kr ?V) =
        sort_key ?Kr (filter (\<lambda>p. arrival p \<le> ?t) (remove1 ?p U))"
      by (simp add: filter_remove1)
    have "?p \<notin> set (filter (\<lambda>p. ?t < arrival p) U)" using pa by simp
    then have "remove1 ?p (filter (\<lambda>p. ?t < arrival p) U) = filter (\<lambda>p. ?t < arrival p) U"
      by (rule remove1_idem)
    then have rm': "filter (\<lambda>p. ?t < arrival p) (remove1 ?p U) =
        filter (\<lambda>p. ?t < arrival p) U"
      by (simp add: filter_remove1)
    have h: "sjf_holds ?t (remove1 ?p U) (sjf_step s)"
      unfolding sjf_holds_def using pb by (simp add: st rd' rm')
    have d: "sjf_effect U s (sjf_step s)"
      unfolding sjf_effect_def some option.case
      by (simp add: st)
    from h d pU show ?thesis by (simp add: some)
  qed
qed

lemma filter_split_Nil:
  fixes f :: "'a \<Rightarrow> int"
  shows "filter (\<lambda>p. f p \<le> c) xs = [] \<Longrightarrow> filter (\<lambda>p. c < f p) xs = [] \<Longrightarrow> xs = []"
  by (cases xs) (auto split: if_splits)

lemma length_filter_split:
  fixes f :: "'a \<Rightarrow> int"
  shows "length (filter (\<lambda>p. f p \<le> c) xs) + length (filter (\<lambda>p. c < f p) xs) = length xs"
  by (induction xs) auto

lemma sjf_unrun_subset: "set (sjf_unrun ps k) \<subseteq> set ps"
proof (induction k)
  case 0
  show ?case by simp
next
  case (Suc k)
  have "set (remove1 p (sjf_unrun ps k)) \<subseteq> set (sjf_unrun ps k)" for p
    by (rule set_remove1_subset)
  with Suc show ?case by (auto split: option.splits)
qed

lemma sjf_holds_at:
  assumes v: "valid_procs ps"
  shows "\<exists>c. sjf_holds c (sjf_unrun ps k) (sjf_at ps k)"
proof (induction k)
  case 0
  from v have a: "\<forall>p\<in>set ps. - 1 < arrival p" by (auto simp: valid_procs_def)
  then have "filter (\<lambda>p. arrival p \<le> - 1) ps = []" "filter (\<lambda>p. - 1 < arrival p) ps = ps"
    by (auto simp: filter_empty_conv filter_id_conv)
  then have "sjf_holds (- 1) (sjf_unrun ps 0) (sjf_at ps 0)"
    by (simp add: sjf_holds_def sjf_at_def sjf_init_def sjf_procs_def)
  then show ?case ..
next
  case (Suc k)
  then obtain c where c: "sjf_holds c (sjf_unrun ps k) (sjf_at ps k)" ..
  let ?U = "sjf_unrun ps k" and ?s = "sjf_at ps k"
  from v sjf_unrun_subset [of ps k] have nb: "\<forall>p\<in>set ?U. 0 \<le> burst p"
    unfolding valid_procs_def by (meson order_less_imp_le subsetD)
  show ?case
  proof (cases "sjf_cond ?s")
    case True
    from sjf_pass [OF nb c True] show ?thesis
      by (auto simp: sjf_at_Suc split: option.splits)
  next
    case False
    then have e: "ready ?s = []" "remaining ?s = []" by (simp_all add: sjf_cond_def)
    with c have "filter (\<lambda>p. arrival p \<le> c) ?U = []" "filter (\<lambda>p. c < arrival p) ?U = []"
      unfolding sjf_holds_def by (metis length_0_conv length_sort)+
    then have "?U = []" by (rule filter_split_Nil)
    then have "sjf_unrun ps (Suc k) = []" by (simp add: first_best_def)
    with c \<open>?U = []\<close> False show ?thesis
      by (auto simp: sjf_at_Suc sjf_step_stop)
  qed
qed

lemma sjf_unrun_stop:
  assumes v: "valid_procs ps" and "\<not> sjf_cond (sjf_at ps k)"
  shows "sjf_unrun ps k = []"
proof -
  let ?U = "sjf_unrun ps k" and ?s = "sjf_at ps k"
  from sjf_holds_at [OF v, of k] obtain c where c: "sjf_holds c ?U ?s" ..
  from assms(2) have e: "ready ?s = []" "remaining ?s = []" by (simp_all add: sjf_cond_def)
  with c have "filter (\<lambda>p. arrival p \<le> c) ?U = []" "filter (\<lambda>p. c < arrival p) ?U = []"
    unfolding sjf_holds_def by (metis length_0_conv length_sort)+
  then show ?thesis by (rule filter_split_Nil)
qed

lemma sjf_unrun_length:
  assumes v: "valid_procs ps"
  shows "length (results (sjf_at ps k)) + length (sjf_unrun ps k) = length ps"
proof -
  let ?U = "sjf_unrun ps k" and ?s = "sjf_at ps k"
  from sjf_holds_at [OF v, of k] obtain c where c: "sjf_holds c ?U ?s" ..
  from v have "\<forall>p\<in>set ps. 0 \<le> burst p" by (auto simp: valid_procs_def)
  from sjf_sound_at [OF this, of k]
  have "length (results ?s) + length (remaining ?s) + length (ready ?s) = length ps"
    by (simp add: sjf_sound_def sjf_procs_def)
  moreover have "length (remaining ?s) + length (ready ?s) = length ?U"
  proof -
    have "length (filter (\<lambda>p. arrival p \<le> c) ?U) + length (filter (\<lambda>p. c < arrival p) ?U) =
        length ?U"
      by (rule length_filter_split)
    with c show ?thesis by (simp add: sjf_holds_def)
  qed
  ultimately show ?thesis by simp
qed

lemma sjf_pass_effect:
  assumes v: "valid_procs ps" and c: "sjf_cond (sjf_at ps k)"
  shows "sjf_effect (sjf_unrun ps k) (sjf_at ps k) (sjf_at ps (Suc k))"
proof -
  from sjf_holds_at [OF v, of k] obtain c0 where h: "sjf_holds c0 (sjf_unrun ps k) (sjf_at ps k)" ..
  from v sjf_unrun_subset [of ps k] have nb: "\<forall>p\<in>set (sjf_unrun ps k). 0 \<le> burst p"
    unfolding valid_procs_def by (meson order_less_imp_le subsetD)
  from sjf_pass [OF nb h c] show ?thesis by (simp add: sjf_at_Suc)
qed

text \<open>
  A decision of SJF as the specification words it, between the state \<open>s\<close> at the head of the
  loop and the state \<open>s'\<close> after the pass, where \<open>unrun\<close> lists the processes that have not
  yet run, in input order. Among those that have arrived, the one with minimal burst, then
  earliest arrival, then first in the list is run from the current time for its whole
  burst: one segment, one result row whose completion time is the end of the segment, and
  one timeline unit for every time value of the segment, all with the id of the process.
  When none has arrived, the clock moves to the earliest arrival of a process not yet run,
  one idle unit is emitted for every time value of the gap, and nothing is run.
\<close>

definition sjf_decision :: "process list \<Rightarrow> sjf_state \<Rightarrow> sjf_state \<Rightarrow> bool" where
  "sjf_decision unrun s s' =
     (case first_best (\<lambda>p. arrival p \<le> clock s) burst arrival unrun of
        None \<Rightarrow>
          (\<exists>q\<in>set unrun. clock s' = arrival q) \<and>
          (\<forall>q\<in>set unrun. clock s' \<le> arrival q) \<and>
          timeline s' = timeline s @
            map (\<lambda>t. \<lparr>tl_time = t, running = ''IDLE''\<rparr>) [clock s..clock s' - 1] \<and>
          gantt s' = gantt s \<and> results s' = results s
      | Some p \<Rightarrow>
          gantt s' = gantt s @
            [\<lparr>seg_pid = pid p, seg_start = clock s, seg_finish = clock s + burst p\<rparr>] \<and>
          results s' = results s @
            [\<lparr>row_pid = pid p, AT = arrival p, BT = burst p, CT = clock s + burst p,
              TAT = clock s + burst p - arrival p,
              WT = clock s + burst p - arrival p - burst p\<rparr>] \<and>
          timeline s' = timeline s @
            map (\<lambda>t. \<lparr>tl_time = t, running = pid p\<rparr>) [clock s..clock s + burst p - 1] \<and>
          clock s' = clock s + burst p)"

text \<open>
  Claim C3. For every valid process list (ids may repeat): the loop stops after some number
  \<open>n\<close> of passes, when no process is left to run, and the scheduler returns the Gantt chart,
  the result rows and the timeline of that state. Every pass of the loop body from a state
  at the head of the loop is a decision as described by \<open>sjf_decision\<close>, taken on the
  processes that have not yet run: the process chosen is, among those that have arrived,
  the one of minimal burst, ties broken by earliest arrival and then by input order, and it
  is run from the current time to completion, with one timeline unit per time value of its
  segment; when none has arrived, one idle unit is emitted for every time value up to the
  next arrival and the loop tries again. Every process that has run has one result row.
\<close>

theorem sjf_decision_points:
  assumes "valid_procs ps"
  shows "(\<exists>n. (\<forall>k<n. sjf_cond (sjf_at ps k)) \<and> \<not> sjf_cond (sjf_at ps n) \<and>
            sjf_unrun ps n = [] \<and>
            sjf_nonpreemptive_scheduler ps =
              (gantt (sjf_at ps n), results (sjf_at ps n), timeline (sjf_at ps n))) \<and>
         (\<forall>k. sjf_cond (sjf_at ps k) \<longrightarrow>
            sjf_decision (sjf_unrun ps k) (sjf_at ps k) (sjf_at ps (Suc k))) \<and>
         (\<forall>k. length (results (sjf_at ps k)) + length (sjf_unrun ps k) = length ps)"
proof -
  from sjf_scheduler_at [of ps] obtain n where n:
    "\<forall>k<n. sjf_cond (sjf_at ps k)" "\<not> sjf_cond (sjf_at ps n)"
    "sjf_nonpreemptive_scheduler ps =
       (gantt (sjf_at ps n), results (sjf_at ps n), timeline (sjf_at ps n))" by blast
  from sjf_unrun_stop [OF assms n(2)] have "sjf_unrun ps n = []" .
  with n have 1: "\<exists>n. (\<forall>k<n. sjf_cond (sjf_at ps k)) \<and> \<not> sjf_cond (sjf_at ps n) \<and>
            sjf_unrun ps n = [] \<and>
            sjf_nonpreemptive_scheduler ps =
              (gantt (sjf_at ps n), results (sjf_at ps n), timeline (sjf_at ps n))" by blast
  have conv: "sjf_decision U s s'" if "sjf_effect U s s'" for U s s'
    using that unfolding sjf_effect_def sjf_decision_def
    by (auto simp: units_def make_row_def Let_def IDLE_def split: option.splits)
  have 2: "\<forall>k. sjf_cond (sjf_at ps k) \<longrightarrow>
      sjf_decision (sjf_unrun ps k) (sjf_at ps k) (sjf_at ps (Suc k))"
    using sjf_pass_effect [OF assms] conv by blast
  from 1 2 sjf_unrun_length [OF assms] show ?thesis by blast
qed


text \<open>
  An input with an idle gap, a repeated id and a tie: nothing arrives before time 2, and
  after the first process two processes of equal burst and arrival wait, the second of them
  with the id of the first process.
\<close>

definition sjf_example :: "process list" where
  "sjf_example =
     [\<lparr>pid = ''A'', arrival = 2, burst = 3, priority = 0\<rparr>,
      \<lparr>pid = ''B'', arrival = 3, burst = 2, priority = 0\<rparr>,
      \<lparr>pid = ''A'', arrival = 3, burst = 2, priority = 0\<rparr>]"

theorem sjf_decision_points_witness:
  "valid_procs sjf_example \<and>
   sjf_cond (sjf_at sjf_example 0) \<and>
   sjf_decision (sjf_unrun sjf_example 0) (sjf_at sjf_example 0) (sjf_at sjf_example 1) \<and>
   timeline (sjf_at sjf_example 1) =
     [\<lparr>tl_time = 0, running = ''IDLE''\<rparr>, \<lparr>tl_time = 1, running = ''IDLE''\<rparr>] \<and>
   sjf_cond (sjf_at sjf_example 2) \<and>
   sjf_unrun sjf_example 2 =
     [\<lparr>pid = ''B'', arrival = 3, burst = 2, priority = 0\<rparr>,
      \<lparr>pid = ''A'', arrival = 3, burst = 2, priority = 0\<rparr>] \<and>
   sjf_decision (sjf_unrun sjf_example 2) (sjf_at sjf_example 2) (sjf_at sjf_example 3) \<and>
   gantt (sjf_at sjf_example 3) =
     [\<lparr>seg_pid = ''A'', seg_start = 2, seg_finish = 5\<rparr>,
      \<lparr>seg_pid = ''B'', seg_start = 5, seg_finish = 7\<rparr>] \<and>
   map CT (results (sjf_at sjf_example 3)) = [5, 7]"
proof -
  have v: "valid_procs sjf_example" by (simp add: valid_procs_def sjf_example_def)
  have c: "sjf_cond (sjf_at sjf_example 0)" "sjf_cond (sjf_at sjf_example 2)" by code_simp+
  have t: "timeline (sjf_at sjf_example 1) =
     [\<lparr>tl_time = 0, running = ''IDLE''\<rparr>, \<lparr>tl_time = 1, running = ''IDLE''\<rparr>]" by code_simp
  have u: "sjf_unrun sjf_example 2 =
     [\<lparr>pid = ''B'', arrival = 3, burst = 2, priority = 0\<rparr>,
      \<lparr>pid = ''A'', arrival = 3, burst = 2, priority = 0\<rparr>]" by code_simp
  have g: "gantt (sjf_at sjf_example 3) =
     [\<lparr>seg_pid = ''A'', seg_start = 2, seg_finish = 5\<rparr>,
      \<lparr>seg_pid = ''B'', seg_start = 5, seg_finish = 7\<rparr>]" by code_simp
  have r: "map CT (results (sjf_at sjf_example 3)) = [5, 7]" by code_simp
  from sjf_decision_points [OF v] c
  have "sjf_decision (sjf_unrun sjf_example 0) (sjf_at sjf_example 0)
          (sjf_at sjf_example (Suc 0))"
    and "sjf_decision (sjf_unrun sjf_example 2) (sjf_at sjf_example 2)
          (sjf_at sjf_example (Suc 2))" by blast+
  then have d: "sjf_decision (sjf_unrun sjf_example 0) (sjf_at sjf_example 0)
          (sjf_at sjf_example 1)"
    "sjf_decision (sjf_unrun sjf_example 2) (sjf_at sjf_example 2) (sjf_at sjf_example 3)"
    by (simp_all add: eval_nat_numeral)
  from v c t u g r d show ?thesis by (intro conjI)
qed

section \<open>SRTF: dictionaries\<close>

lemma has_key_iff: "has_key d k \<longleftrightarrow> k \<in> fst ` set d"
  by (simp add: has_key_def map_of_eq_None_iff)

lemma has_key_update [simp]: "has_key (AList.update k v d) k' \<longleftrightarrow> k' = k \<or> has_key d k'"
  by (auto simp: has_key_def update_conv')

lemma dict_get_update [simp]:
  "dict_get (AList.update k v d) k' = (if k' = k then v else dict_get d k')"
  by (simp add: dict_get_def update_conv')

lemma length_update:
  "length (AList.update k v d) = (if has_key d k then length d else Suc (length d))"
  by (induction d) (auto simp: has_key_iff)

lemma missing_key_None: "missing_key d ps = None \<longleftrightarrow> (\<forall>p\<in>set ps. has_key d (pid p))"
  by (auto simp: missing_key_def find_None_iff)

lemma dict_of_snoc: "dict_of f (xs @ [x]) = AList.update (pid x) (f x) (dict_of f xs)"
  by (simp add: dict_of_def)

lemma dict_of_keys: "fst ` set (dict_of f xs) = pid ` set xs"
proof (induction xs rule: rev_induct)
  case Nil
  show ?case by (simp add: dict_of_def)
next
  case (snoc x xs)
  then show ?case by (auto simp: dict_of_snoc dom_update)
qed

lemma dict_of_distinct: "distinct (map fst (dict_of f xs))"
proof (induction xs rule: rev_induct)
  case Nil
  show ?case by (simp add: dict_of_def)
next
  case (snoc x xs)
  then show ?case by (simp add: dict_of_snoc distinct_update)
qed

lemma dict_of_get:
  "distinct (map pid xs) \<Longrightarrow> p \<in> set xs \<Longrightarrow> dict_get (dict_of f xs) (pid p) = f p"
proof (induction xs rule: rev_induct)
  case Nil
  then show ?case by simp
next
  case (snoc x xs)
  from snoc.prems have d: "distinct (map pid xs)" and nx: "pid x \<notin> pid ` set xs" by simp_all
  show ?case
  proof (cases "p = x")
    case True
    then show ?thesis by (simp add: dict_of_snoc)
  next
    case False
    with snoc.prems have pin: "p \<in> set xs" by simp
    with nx have "pid p \<noteq> pid x" by (metis image_eqI)
    with snoc.IH [OF d pin] show ?thesis by (simp add: dict_of_snoc)
  qed
qed

lemma dict_of_has_key: "p \<in> set xs \<Longrightarrow> has_key (dict_of f xs) (pid p)"
  by (simp add: has_key_iff dict_of_keys)

lemma dict_entry_get:
  "distinct (map fst d) \<Longrightarrow> (k, v) \<in> set d \<Longrightarrow> dict_get d k = v"
  by (simp add: dict_get_def)

section \<open>SRTF: the states of the loop\<close>

definition srtf_procs :: "process list \<Rightarrow> process list" where
  "srtf_procs ps = sort_key arrival ps"

text \<open>
  The value of the loop variables after \<open>k\<close> passes of the body: an exception, or a state.
\<close>

definition srtf_at :: "process list \<Rightarrow> nat \<Rightarrow> py_error + srtf_state" where
  "srtf_at ps k =
     (srtf_body (srtf_procs ps) (dict_of arrival (srtf_procs ps)) ^^ k)
       (Inr (srtf_init (srtf_procs ps)))"

text \<open>The remaining burst the loop holds for a process.\<close>

definition remaining_of :: "srtf_state \<Rightarrow> process \<Rightarrow> int" where
  "remaining_of s p = dict_get (remaining_burst s) (pid p)"

text \<open>The body of the loop when no key is missing.\<close>

definition srtf_available :: "process list \<Rightarrow> srtf_state \<Rightarrow> process list" where
  "srtf_available procs s =
     [p \<leftarrow> procs. arrival p \<le> clock s \<and> \<not> has_key (completed s) (pid p)]"

definition srtf_next :: "process list \<Rightarrow> srtf_state \<Rightarrow> srtf_state" where
  "srtf_next procs s =
     (if srtf_available procs s = [] then
        s\<lparr>clock := clock s + 1,
          timeline := timeline s @ [\<lparr>tl_time = clock s, running = IDLE\<rparr>]\<rparr>
      else
        let cur = hd (sort_key (remaining_of s) (srtf_available procs s))
        in s\<lparr>clock := clock s + 1,
             timeline := timeline s @ [\<lparr>tl_time = clock s, running = pid cur\<rparr>],
             remaining_burst :=
               AList.update (pid cur) (remaining_of s cur - 1) (remaining_burst s),
             completed := (if remaining_of s cur - 1 = 0
                           then AList.update (pid cur) (clock s + 1) (completed s)
                           else completed s)\<rparr>)"

lemma srtf_step_next:
  assumes dp: "distinct (map pid procs)"
    and k: "\<forall>p\<in>set procs. has_key (remaining_burst s) (pid p)"
  shows "srtf_step procs (dict_of arrival procs) s = Inr (srtf_next procs s)"
proof -
  let ?am = "dict_of arrival procs"
  have m1: "missing_key ?am procs = None"
    by (simp add: missing_key_None dict_of_has_key)
  have av: "[p \<leftarrow> procs. dict_get ?am (pid p) \<le> clock s \<and> \<not> has_key (completed s) (pid p)] =
      srtf_available procs s"
    unfolding srtf_available_def
    by (intro filter_cong) (simp_all add: dict_of_get [OF dp])
  have m2: "missing_key (remaining_burst s) (srtf_available procs s) = None"
    using k by (simp add: missing_key_None srtf_available_def)
  have sk: "(\<lambda>p. dict_get (remaining_burst s) (pid p)) = remaining_of s"
    by (simp add: remaining_of_def fun_eq_iff)
  show ?thesis
    unfolding srtf_step_def m1 option.case av Let_def
    by (simp add: m2 srtf_next_def Let_def sk remaining_of_def)
qed


lemma srtf_next_idle:
  "srtf_available procs s = [] \<Longrightarrow>
   srtf_next procs s =
     s\<lparr>clock := clock s + 1, timeline := timeline s @ [\<lparr>tl_time = clock s, running = IDLE\<rparr>]\<rparr>"
  by (simp add: srtf_next_def)

text \<open>The process the loop body runs when some process is available.\<close>

definition srtf_cur :: "process list \<Rightarrow> srtf_state \<Rightarrow> process" where
  "srtf_cur procs s = hd (sort_key (remaining_of s) (srtf_available procs s))"

lemma srtf_next_run:
  assumes "srtf_available procs s \<noteq> []"
  shows "clock (srtf_next procs s) = clock s + 1"
    and "timeline (srtf_next procs s) =
           timeline s @ [\<lparr>tl_time = clock s, running = pid (srtf_cur procs s)\<rparr>]"
    and "remaining_burst (srtf_next procs s) =
           AList.update (pid (srtf_cur procs s)) (remaining_of s (srtf_cur procs s) - 1)
             (remaining_burst s)"
    and "completed (srtf_next procs s) =
           (if remaining_of s (srtf_cur procs s) = 1
            then AList.update (pid (srtf_cur procs s)) (clock s + 1) (completed s)
            else completed s)"
  using assms by (simp_all add: srtf_next_def srtf_cur_def Let_def)

lemma srtf_cur_available:
  assumes "srtf_available procs s \<noteq> []"
  shows "srtf_cur procs s \<in> set procs" and "arrival (srtf_cur procs s) \<le> clock s"
    and "\<not> has_key (completed s) (pid (srtf_cur procs s))"
proof -
  from hd_sort_key(1) [OF assms, of "remaining_of s"]
  have "srtf_cur procs s \<in> set (srtf_available procs s)" by (simp add: srtf_cur_def)
  then show "srtf_cur procs s \<in> set procs" and "arrival (srtf_cur procs s) \<le> clock s"
    and "\<not> has_key (completed s) (pid (srtf_cur procs s))"
    by (simp_all add: srtf_available_def)
qed

definition srtf_inv :: "process list \<Rightarrow> srtf_state \<Rightarrow> bool" where
  "srtf_inv procs s \<longleftrightarrow>
     distinct (map fst (remaining_burst s)) \<and>
     fst ` set (remaining_burst s) = pid ` set procs \<and>
     distinct (map fst (completed s)) \<and>
     fst ` set (completed s) \<subseteq> pid ` set procs \<and>
     (\<forall>p\<in>set procs.
        0 \<le> remaining_of s p \<and> remaining_of s p \<le> burst p \<and>
        (has_key (completed s) (pid p) \<longleftrightarrow> remaining_of s p = 0) \<and>
        (remaining_of s p < burst p \<longrightarrow> arrival p + (burst p - remaining_of s p) \<le> clock s) \<and>
        (has_key (completed s) (pid p) \<longrightarrow>
           arrival p + burst p \<le> dict_get (completed s) (pid p) \<and>
           dict_get (completed s) (pid p) \<le> clock s))"

lemma srtf_inv_init:
  assumes "distinct (map pid procs)" "\<forall>p\<in>set procs. 0 < burst p"
  shows "srtf_inv procs (srtf_init procs)"
  using assms
  by (auto simp add: srtf_inv_def srtf_init_def remaining_of_def dict_of_distinct dict_of_keys
      dict_of_get has_key_def order_less_imp_le)

lemma srtf_inv_keys:
  "srtf_inv procs s \<Longrightarrow> p \<in> set procs \<Longrightarrow> has_key (remaining_burst s) (pid p)"
  by (simp add: srtf_inv_def has_key_iff)

lemma srtf_inv_next:
  assumes dp: "distinct (map pid procs)" and inv: "srtf_inv procs s"
  shows "srtf_inv procs (srtf_next procs s)"
proof (cases "srtf_available procs s = []")
  case True
  from inv show ?thesis
    unfolding srtf_next_idle [OF True] srtf_inv_def remaining_of_def
    by (simp add: add_increasing2)
next
  case False
  let ?c = "srtf_cur procs s" and ?n = "srtf_next procs s"
  note n = srtf_next_run [OF False] and c = srtf_cur_available [OF False]
  from dp have inj: "inj_on pid (set procs)" by (simp add: distinct_map)
  have pid_eq: "pid q = pid ?c \<longleftrightarrow> q = ?c" if "q \<in> set procs" for q
    using inj that c(1) by (auto simp: inj_on_def)
  from inv have i:
    "distinct (map fst (remaining_burst s))" "fst ` set (remaining_burst s) = pid ` set procs"
    "distinct (map fst (completed s))" "fst ` set (completed s) \<subseteq> pid ` set procs"
    and ip: "\<And>p. p \<in> set procs \<Longrightarrow>
        0 \<le> remaining_of s p \<and> remaining_of s p \<le> burst p \<and>
        (has_key (completed s) (pid p) \<longleftrightarrow> remaining_of s p = 0) \<and>
        (remaining_of s p < burst p \<longrightarrow> arrival p + (burst p - remaining_of s p) \<le> clock s) \<and>
        (has_key (completed s) (pid p) \<longrightarrow>
           arrival p + burst p \<le> dict_get (completed s) (pid p) \<and>
           dict_get (completed s) (pid p) \<le> clock s)"
    by (simp_all add: srtf_inv_def)
  from ip [OF c(1)] c(3) have rc: "1 \<le> remaining_of s ?c" "remaining_of s ?c \<le> burst ?c"
    by auto
  have rem': "remaining_of ?n q = (if q = ?c then remaining_of s ?c - 1 else remaining_of s q)"
    if "q \<in> set procs" for q
    using pid_eq [OF that] by (simp add: remaining_of_def n(3))
  have hk': "has_key (completed ?n) (pid q) \<longleftrightarrow>
      (q = ?c \<and> remaining_of s ?c = 1) \<or> has_key (completed s) (pid q)"
    if "q \<in> set procs" for q
    using pid_eq [OF that] by (auto simp: n(4))
  have ct': "dict_get (completed ?n) (pid q) =
      (if q = ?c \<and> remaining_of s ?c = 1 then clock s + 1 else dict_get (completed s) (pid q))"
    if "q \<in> set procs" for q
    using pid_eq [OF that] by (auto simp: n(4))
  have a: "distinct (map fst (remaining_burst ?n))"
    using i(1) by (simp add: n(3) distinct_update)
  have b: "fst ` set (remaining_burst ?n) = pid ` set procs"
    using i(2) c(1) by (auto simp: n(3) dom_update)
  have d: "distinct (map fst (completed ?n))"
    using i(3) by (simp add: n(4) distinct_update)
  have e: "fst ` set (completed ?n) \<subseteq> pid ` set procs"
    using i(4) c(1) by (auto simp: n(4) dom_update)
  have f: "0 \<le> remaining_of ?n p \<and> remaining_of ?n p \<le> burst p \<and>
        (has_key (completed ?n) (pid p) \<longleftrightarrow> remaining_of ?n p = 0) \<and>
        (remaining_of ?n p < burst p \<longrightarrow> arrival p + (burst p - remaining_of ?n p) \<le> clock ?n) \<and>
        (has_key (completed ?n) (pid p) \<longrightarrow>
           arrival p + burst p \<le> dict_get (completed ?n) (pid p) \<and>
           dict_get (completed ?n) (pid p) \<le> clock ?n)"
    if p: "p \<in> set procs" for p
  proof (cases "p = ?c")
    case True
    have "arrival ?c + (burst ?c - (remaining_of s ?c - 1)) \<le> clock s + 1"
      using ip [OF c(1)] c(2) rc by (cases "remaining_of s ?c < burst ?c") auto
    then show ?thesis
      unfolding rem' [OF p] hk' [OF p] ct' [OF p] n(1) using True rc c(3) by auto
  next
    case False
    then show ?thesis
      unfolding rem' [OF p] hk' [OF p] ct' [OF p] n(1) using ip [OF p] by auto
  qed
  from a b d e f show ?thesis unfolding srtf_inv_def by blast
qed


definition srtf_state_at :: "process list \<Rightarrow> nat \<Rightarrow> srtf_state" where
  "srtf_state_at ps k = (srtf_next (srtf_procs ps) ^^ k) (srtf_init (srtf_procs ps))"

lemma distinct_pids_srtf_procs:
  "distinct (map pid ps) \<Longrightarrow> distinct (map pid (srtf_procs ps))"
  by (metis (no_types) srtf_procs_def distinct_map distinct_sort inj_on_def set_sort)

lemma set_srtf_procs [simp]: "set (srtf_procs ps) = set ps"
  by (simp add: srtf_procs_def)

lemma srtf_state_at_Suc:
  "srtf_state_at ps (Suc k) = srtf_next (srtf_procs ps) (srtf_state_at ps k)"
  by (simp add: srtf_state_at_def)

lemma srtf_inv_at:
  assumes "valid_procs ps" "distinct (map pid ps)"
  shows "srtf_inv (srtf_procs ps) (srtf_state_at ps k)"
proof (induction k)
  case 0
  have "\<forall>p\<in>set (srtf_procs ps). 0 < burst p" using assms(1) by (simp add: valid_procs_def)
  from srtf_inv_init [OF distinct_pids_srtf_procs [OF assms(2)] this]
  show ?case by (simp add: srtf_state_at_def)
next
  case (Suc k)
  from srtf_inv_next [OF distinct_pids_srtf_procs [OF assms(2)] Suc]
  show ?case by (simp add: srtf_state_at_Suc)
qed

lemma srtf_at_state:
  assumes "valid_procs ps" "distinct (map pid ps)"
  shows "srtf_at ps k = Inr (srtf_state_at ps k)"
proof (induction k)
  case 0
  show ?case by (simp add: srtf_at_def srtf_state_at_def)
next
  case (Suc k)
  let ?procs = "srtf_procs ps"
  have "srtf_at ps (Suc k) = srtf_body ?procs (dict_of arrival ?procs) (srtf_at ps k)"
    by (simp add: srtf_at_def)
  also have "\<dots> = srtf_step ?procs (dict_of arrival ?procs) (srtf_state_at ps k)"
    by (simp add: Suc srtf_body_def)
  also have "\<dots> = Inr (srtf_next ?procs (srtf_state_at ps k))"
    using srtf_inv_keys [OF srtf_inv_at [OF assms]]
    by (intro srtf_step_next distinct_pids_srtf_procs assms) simp
  finally show ?case by (simp add: srtf_state_at_Suc)
qed






section \<open>SRTF returns only for distinct ids\<close>

definition srtf_keys_ok :: "process list \<Rightarrow> py_error + srtf_state \<Rightarrow> bool" where
  "srtf_keys_ok procs r =
     (case r of
        Inl e \<Rightarrow> True
      | Inr s \<Rightarrow> distinct (map fst (completed s)) \<and>
                 fst ` set (completed s) \<subseteq> pid ` set procs)"

lemma srtf_keys_ok_step:
  assumes "srtf_keys_ok procs (Inr s)"
  shows "srtf_keys_ok procs (srtf_step procs am s)"
proof (cases "missing_key am procs")
  case (Some k)
  then show ?thesis by (simp add: srtf_step_def srtf_keys_ok_def)
next
  case None
  let ?av = "[p \<leftarrow> procs. dict_get am (pid p) \<le> clock s \<and> \<not> has_key (completed s) (pid p)]"
  show ?thesis
  proof (cases "?av = []")
    case True
    with None assms show ?thesis by (simp add: srtf_step_def srtf_keys_ok_def)
  next
    case False
    note ne = False
    show ?thesis
    proof (cases "missing_key (remaining_burst s) ?av")
      case (Some k)
      with None ne show ?thesis by (simp add: srtf_step_def srtf_keys_ok_def)
    next
      case None2: None
      let ?cur = "hd (sort_key (\<lambda>p. dict_get (remaining_burst s) (pid p)) ?av)"
      from hd_sort_key(1) [OF ne, of "\<lambda>p. dict_get (remaining_burst s) (pid p)"]
      have "?cur \<in> set ?av" .
      then have cin: "?cur \<in> set procs" by simp
      from assms have a: "distinct (map fst (completed s))"
        "fst ` set (completed s) \<subseteq> pid ` set procs"
        by (simp_all add: srtf_keys_ok_def)
      have "distinct (map fst (AList.update (pid ?cur) (clock s + 1) (completed s)))"
        using a(1) by (rule distinct_update)
      moreover have "fst ` set (AList.update (pid ?cur) (clock s + 1) (completed s))
          \<subseteq> pid ` set procs"
        using a(2) cin by (auto simp: dom_update)
      ultimately show ?thesis
        using None None2 ne a
        unfolding srtf_step_def srtf_keys_ok_def Let_def by simp
    qed
  qed
qed

lemma srtf_returns_distinct:
  assumes "srtf_scheduler ps = Some (Inr out)" and ne: "ps \<noteq> []"
  shows "distinct (map pid ps)"
proof -
  let ?procs = "sort_key arrival ps"
  let ?am = "dict_of arrival ?procs"
  from assms obtain s where
    l: "srtf_loop ?procs ?am (Inr (srtf_init ?procs)) = Some (Inr s)"
    by (auto simp: srtf_scheduler_def Let_def split: option.splits sum.splits)
  then have w: "while_option (srtf_cond ?procs) (srtf_body ?procs ?am) (Inr (srtf_init ?procs)) =
      Some (Inr s)" by (simp add: srtf_loop_def)
  have "srtf_keys_ok ?procs (Inr s)"
  proof (rule while_option_rule [OF _ w])
    show "srtf_keys_ok ?procs (Inr (srtf_init ?procs))"
      by (simp add: srtf_keys_ok_def srtf_init_def)
  next
    fix r assume r: "srtf_keys_ok ?procs r" "srtf_cond ?procs r"
    show "srtf_keys_ok ?procs (srtf_body ?procs ?am r)"
    proof (cases r)
      case (Inl e)
      with r(2) show ?thesis by (simp add: srtf_cond_def)
    next
      case (Inr t)
      with r(1) show ?thesis by (simp add: srtf_body_def srtf_keys_ok_step)
    qed
  qed
  then have k: "distinct (map fst (completed s))" "fst ` set (completed s) \<subseteq> pid ` set ?procs"
    by (simp_all add: srtf_keys_ok_def)
  from while_option_stop [OF w] have "length ?procs \<le> length (completed s)"
    by (simp add: srtf_cond_def)
  also have "length (completed s) = card (fst ` set (completed s))"
    using k(1) by (metis distinct_card length_map set_map)
  also have "\<dots> \<le> card (pid ` set ?procs)" using k(2) by (intro card_mono) simp_all
  finally have "length (map pid ps) \<le> card (set (map pid ps))" by simp
  moreover have "card (set (map pid ps)) \<le> length (map pid ps)" by (rule card_length)
  ultimately show ?thesis by (intro card_distinct) simp
qed


section \<open>SRTF: what holds for every valid list, repeated ids included\<close>

lemma dict_of_get_some:
  "p \<in> set xs \<Longrightarrow> \<exists>q\<in>set xs. dict_get (dict_of f xs) (pid p) = f q"
proof (induction xs rule: rev_induct)
  case Nil
  then show ?case by simp
next
  case (snoc x xs)
  show ?case
  proof (cases "pid p = pid x")
    case True
    then show ?thesis by (simp add: dict_of_snoc)
  next
    case False
    with snoc.prems have "p \<in> set xs" by auto
    from snoc.IH [OF this] False show ?thesis by (auto simp: dict_of_snoc)
  qed
qed

text \<open>
  The part of the invariant of the loop that does not depend on the ids being distinct:
  the dictionary of remaining bursts has one entry for every id, no remaining burst is
  negative, and that of a process not yet recorded as completed is positive.
\<close>

definition srtf_safe :: "process list \<Rightarrow> srtf_state \<Rightarrow> bool" where
  "srtf_safe procs s \<longleftrightarrow>
     distinct (map fst (remaining_burst s)) \<and>
     fst ` set (remaining_burst s) = pid ` set procs \<and>
     (\<forall>p\<in>set procs. 0 \<le> remaining_of s p \<and>
        (\<not> has_key (completed s) (pid p) \<longrightarrow> 0 < remaining_of s p))"

lemma srtf_safe_init:
  assumes "\<forall>p\<in>set procs. 0 < burst p"
  shows "srtf_safe procs (srtf_init procs)"
proof -
  have "0 < remaining_of (srtf_init procs) p" if "p \<in> set procs" for p
  proof -
    from dict_of_get_some [OF that, of burst] obtain q where
      "q \<in> set procs" "dict_get (dict_of burst procs) (pid p) = burst q" by blast
    with assms show ?thesis by (simp add: remaining_of_def srtf_init_def)
  qed
  then show ?thesis
    by (auto simp: srtf_safe_def srtf_init_def dict_of_distinct dict_of_keys
        intro: order_less_imp_le)
qed

lemma srtf_safe_step:
  assumes inv: "srtf_safe procs s"
  shows "\<exists>s'. srtf_step procs (dict_of arrival procs) s = Inr s' \<and> srtf_safe procs s'"
proof -
  let ?am = "dict_of arrival procs"
  let ?av = "[p \<leftarrow> procs. dict_get ?am (pid p) \<le> clock s \<and> \<not> has_key (completed s) (pid p)]"
  have m1: "missing_key ?am procs = None"
    by (simp add: missing_key_None dict_of_has_key)
  from inv have d: "distinct (map fst (remaining_burst s))"
    and k: "fst ` set (remaining_burst s) = pid ` set procs"
    and r: "\<forall>p\<in>set procs. 0 \<le> remaining_of s p \<and>
        (\<not> has_key (completed s) (pid p) \<longrightarrow> 0 < remaining_of s p)"
    by (simp_all add: srtf_safe_def)
  show ?thesis
  proof (cases "?av = []")
    case True
    then have "srtf_step procs ?am s =
        Inr (s\<lparr>clock := clock s + 1,
               timeline := timeline s @ [\<lparr>tl_time = clock s, running = IDLE\<rparr>]\<rparr>)"
      by (simp add: srtf_step_def m1)
    moreover have "srtf_safe procs
        (s\<lparr>clock := clock s + 1,
           timeline := timeline s @ [\<lparr>tl_time = clock s, running = IDLE\<rparr>]\<rparr>)"
      using inv by (simp add: srtf_safe_def remaining_of_def)
    ultimately show ?thesis by simp
  next
    case False
    have m2: "missing_key (remaining_burst s) ?av = None"
      using k by (auto simp: missing_key_None has_key_iff)
    let ?cur = "hd (sort_key (\<lambda>p. dict_get (remaining_burst s) (pid p)) ?av)"
    let ?rb = "AList.update (pid ?cur) (dict_get (remaining_burst s) (pid ?cur) - 1)
                 (remaining_burst s)"
    let ?s' = "s\<lparr>clock := clock s + 1,
                 timeline := timeline s @ [\<lparr>tl_time = clock s, running = pid ?cur\<rparr>],
                 remaining_burst := ?rb,
                 completed := (if dict_get ?rb (pid ?cur) = 0
                               then AList.update (pid ?cur) (clock s + 1) (completed s)
                               else completed s)\<rparr>"
    have st: "srtf_step procs ?am s = Inr ?s'"
      using False by (simp add: srtf_step_def m1 m2 Let_def)
    from hd_sort_key(1) [OF False, of "\<lambda>p. dict_get (remaining_burst s) (pid p)"]
    have "?cur \<in> set ?av" .
    then have cin: "?cur \<in> set procs" and cn: "\<not> has_key (completed s) (pid ?cur)"
      by simp_all
    with r have pos: "0 < dict_get (remaining_burst s) (pid ?cur)"
      by (simp add: remaining_of_def)
    have a: "distinct (map fst ?rb)" using d by (rule distinct_update)
    have b: "fst ` set ?rb = pid ` set procs" using k cin by (auto simp: dom_update)
    have c: "0 \<le> remaining_of ?s' p \<and>
        (\<not> has_key (completed ?s') (pid p) \<longrightarrow> 0 < remaining_of ?s' p)"
      if "p \<in> set procs" for p
      using r that pos by (auto simp: remaining_of_def)
    from a b c have "srtf_safe procs ?s'" unfolding srtf_safe_def by simp
    with st show ?thesis by simp
  qed
qed

lemma srtf_safe_at:
  assumes "valid_procs ps"
  shows "\<exists>s. srtf_at ps k = Inr s \<and> srtf_safe (srtf_procs ps) s"
proof (induction k)
  case 0
  have "\<forall>p\<in>set (srtf_procs ps). 0 < burst p"
    using assms by (simp add: valid_procs_def srtf_procs_def)
  from srtf_safe_init [OF this] show ?case by (simp add: srtf_at_def)
next
  case (Suc k)
  then obtain s where s: "srtf_at ps k = Inr s" "srtf_safe (srtf_procs ps) s" by blast
  have "srtf_at ps (Suc k) =
      srtf_step (srtf_procs ps) (dict_of arrival (srtf_procs ps)) s"
    using s(1) by (simp add: srtf_at_def srtf_body_def)
  with srtf_safe_step [OF s(2)] show ?case by simp
qed

lemma srtf_remaining_nonneg:
  assumes "valid_procs ps"
  shows "\<exists>s. srtf_at ps k = Inr s \<and> (\<forall>kv\<in>set (remaining_burst s). 0 \<le> snd kv)"
proof -
  from srtf_safe_at [OF assms, of k] obtain s where s: "srtf_at ps k = Inr s"
    and i: "distinct (map fst (remaining_burst s))"
      "fst ` set (remaining_burst s) = pid ` set (srtf_procs ps)"
      "\<forall>p\<in>set (srtf_procs ps). 0 \<le> remaining_of s p"
    by (auto simp: srtf_safe_def)
  have "\<forall>kv\<in>set (remaining_burst s). 0 \<le> snd kv"
  proof
    fix kv assume kv: "kv \<in> set (remaining_burst s)"
    then have "fst kv \<in> pid ` set (srtf_procs ps)" using i(2) by (metis image_eqI)
    then obtain p where p: "p \<in> set (srtf_procs ps)" "fst kv = pid p" by blast
    from kv have "(fst kv, snd kv) \<in> set (remaining_burst s)" by simp
    from dict_entry_get [OF i(1) this] p(2) have "remaining_of s p = snd kv"
      by (simp add: remaining_of_def)
    with i(3) p(1) show "0 \<le> snd kv" by auto
  qed
  with s show ?thesis by blast
qed

text \<open>With a repeated id the loop condition never fails: SRTF does not return.\<close>

lemma srtf_keys_ok_at:
  "srtf_keys_ok (srtf_procs ps) (srtf_at ps k)"
proof (induction k)
  case 0
  show ?case by (simp add: srtf_at_def srtf_keys_ok_def srtf_init_def)
next
  case (Suc k)
  show ?case
  proof (cases "srtf_at ps k")
    case (Inl e)
    then show ?thesis by (simp add: srtf_at_def srtf_body_def srtf_keys_ok_def)
  next
    case (Inr s)
    with Suc have "srtf_keys_ok (srtf_procs ps) (Inr s)" by simp
    from srtf_keys_ok_step [OF this] Inr show ?thesis
      by (simp add: srtf_at_def srtf_body_def)
  qed
qed

lemma srtf_never_returns:
  assumes v: "valid_procs ps" and nd: "\<not> distinct (map pid ps)"
  shows "srtf_scheduler ps = None"
proof -
  let ?procs = "srtf_procs ps"
  let ?am = "dict_of arrival ?procs"
  from nd have ne: "ps \<noteq> []" by auto
  have lt: "card (pid ` set ?procs) < length ?procs"
  proof -
    have "card (set (map pid ps)) \<le> length (map pid ps)" by (rule card_length)
    moreover have "card (set (map pid ps)) \<noteq> length (map pid ps)"
      using nd card_distinct by blast
    ultimately show ?thesis by (simp add: srtf_procs_def)
  qed
  have c: "srtf_cond ?procs (srtf_at ps k)" for k
  proof -
    from srtf_safe_at [OF v, of k] obtain s where s: "srtf_at ps k = Inr s" by blast
    with srtf_keys_ok_at [of ps k] have k: "distinct (map fst (completed s))"
      "fst ` set (completed s) \<subseteq> pid ` set ?procs"
      by (simp_all add: srtf_keys_ok_def)
    have "length (completed s) = card (fst ` set (completed s))"
      using k(1) by (metis distinct_card length_map set_map)
    also have "\<dots> \<le> card (pid ` set ?procs)" using k(2) by (intro card_mono) simp_all
    finally show ?thesis using lt s by (simp add: srtf_cond_def)
  qed
  then have "\<not> (\<exists>k. \<not> srtf_cond ?procs ((srtf_body ?procs ?am ^^ k) (Inr (srtf_init ?procs))))"
    by (simp add: srtf_at_def)
  then have "srtf_loop ?procs ?am (Inr (srtf_init ?procs)) = None"
    unfolding srtf_loop_def while_option_def by simp
  with ne show ?thesis by (simp add: srtf_scheduler_def Let_def srtf_procs_def)
qed

text \<open>
  A valid list in which two processes share the id \<open>A\<close>; their bursts sum to 3.
\<close>

definition repeated_id :: "process list" where
  "repeated_id =
     [\<lparr>pid = ''A'', arrival = 0, burst = 1, priority = 0\<rparr>,
      \<lparr>pid = ''A'', arrival = 0, burst = 2, priority = 0\<rparr>]"

lemma repeated_id_facts:
  "valid_procs repeated_id" "repeated_id \<noteq> []" "\<not> distinct (map pid repeated_id)"
  "srtf_scheduler repeated_id = None"
proof -
  show v: "valid_procs repeated_id" by (simp add: valid_procs_def repeated_id_def)
  show "repeated_id \<noteq> []" by (simp add: repeated_id_def)
  show nd: "\<not> distinct (map pid repeated_id)" by (simp add: repeated_id_def)
  from srtf_never_returns [OF v nd] show "srtf_scheduler repeated_id = None" .
qed

lemma repeated_id_run:
  "srtf_at repeated_id 3 =
     Inr \<lparr>clock = 3,
          timeline = [\<lparr>tl_time = 0, running = ''A''\<rparr>, \<lparr>tl_time = 1, running = ''A''\<rparr>,
                      \<lparr>tl_time = 2, running = ''IDLE''\<rparr>],
          remaining_burst = [(''A'', 0)], completed = [(''A'', 2)]\<rparr>"
  by code_simp

section \<open>SRTF: the timeline, busy time and termination\<close>

definition srtf_trace_inv :: "process list \<Rightarrow> srtf_state \<Rightarrow> bool" where
  "srtf_trace_inv procs s \<longleftrightarrow>
     0 \<le> clock s \<and> map tl_time (timeline s) = [0..clock s - 1] \<and>
     (\<forall>u\<in>set (timeline s). running u = IDLE \<or> running u \<in> pid ` set procs) \<and>
     (length procs \<le> length (completed s) \<longrightarrow>
        (\<exists>p\<in>set procs. has_key (completed s) (pid p) \<and>
           dict_get (completed s) (pid p) = clock s)) \<and>
     (IDLE \<notin> pid ` set procs \<longrightarrow>
        int (length (filter (\<lambda>u. running u \<noteq> IDLE) (timeline s))) =
          (\<Sum>p\<leftarrow>procs. burst p - remaining_of s p))"

lemma sum_list_change_one:
  fixes f :: "'a \<Rightarrow> int"
  assumes "distinct xs" "c \<in> set xs"
  shows "(\<Sum>x\<leftarrow>xs. if x = c then f x + d else f x) = (\<Sum>x\<leftarrow>xs. f x) + d"
  using assms
proof (induction xs)
  case Nil
  then show ?case by simp
next
  case (Cons a xs)
  show ?case
  proof (cases "a = c")
    case True
    with Cons.prems have "c \<notin> set xs" by simp
    then have "(\<Sum>x\<leftarrow>xs. if x = c then f x + d else f x) = (\<Sum>x\<leftarrow>xs. f x)"
      by (intro arg_cong [where f = sum_list] map_cong) auto
    with True show ?thesis by simp
  next
    case False
    with Cons show ?thesis by simp
  qed
qed

lemma srtf_trace_init: "procs \<noteq> [] \<Longrightarrow> distinct (map pid procs) \<Longrightarrow>
    srtf_trace_inv procs (srtf_init procs)"
  by (simp add: srtf_trace_inv_def srtf_init_def remaining_of_def dict_of_get
      cong: map_cong)

lemma srtf_trace_next:
  assumes dp: "distinct (map pid procs)" and inv: "srtf_inv procs s"
    and tr: "srtf_trace_inv procs s" and c: "length (completed s) < length procs"
  shows "srtf_trace_inv procs (srtf_next procs s)"
proof -
  from tr have t: "0 \<le> clock s" "map tl_time (timeline s) = [0..clock s - 1]"
    "\<forall>u\<in>set (timeline s). running u = IDLE \<or> running u \<in> pid ` set procs"
    "IDLE \<notin> pid ` set procs \<longrightarrow>
        int (length (filter (\<lambda>u. running u \<noteq> IDLE) (timeline s))) =
          (\<Sum>p\<leftarrow>procs. burst p - remaining_of s p)"
    by (simp_all add: srtf_trace_inv_def)
  have up: "[0..clock s - 1] @ [clock s] = [0..clock s + 1 - 1]"
    using t(1) upto_rec2 [of 0 "clock s"] by simp
  show ?thesis
  proof (cases "srtf_available procs s = []")
    case True
    have "length (completed (srtf_next procs s)) < length procs"
      using c by (simp add: srtf_next_idle [OF True])
    then show ?thesis
      unfolding srtf_trace_inv_def
      using t up by (simp add: srtf_next_idle [OF True] remaining_of_def)
  next
    case False
    let ?c = "srtf_cur procs s" and ?n = "srtf_next procs s"
    note n = srtf_next_run [OF False] and cur = srtf_cur_available [OF False]
    from dp have inj: "inj_on pid (set procs)" and d: "distinct procs"
      by (simp_all add: distinct_map)
    have pid_eq: "pid q = pid ?c \<longleftrightarrow> q = ?c" if "q \<in> set procs" for q
      using inj that cur(1) by (auto simp: inj_on_def)
    have a: "0 \<le> clock ?n" using t(1) by (simp add: n)
    have b: "map tl_time (timeline ?n) = [0..clock ?n - 1]"
      using t(2) up by (simp add: n)
    have o: "\<forall>u\<in>set (timeline ?n). running u = IDLE \<or> running u \<in> pid ` set procs"
      using t(3) cur(1) by (auto simp: n)
    have l: "length procs \<le> length (completed ?n) \<longrightarrow>
        (\<exists>p\<in>set procs. has_key (completed ?n) (pid p) \<and>
           dict_get (completed ?n) (pid p) = clock ?n)"
    proof
      assume le: "length procs \<le> length (completed ?n)"
      have "remaining_of s ?c = 1"
      proof (rule ccontr)
        assume "remaining_of s ?c \<noteq> 1"
        then have "completed ?n = completed s" by (simp add: n)
        with le c show False by simp
      qed
      then have "has_key (completed ?n) (pid ?c) \<and> dict_get (completed ?n) (pid ?c) = clock ?n"
        by (simp add: n)
      with cur(1) show "\<exists>p\<in>set procs. has_key (completed ?n) (pid p) \<and>
           dict_get (completed ?n) (pid p) = clock ?n" by blast
    qed
    have bz: "IDLE \<notin> pid ` set procs \<longrightarrow>
        int (length (filter (\<lambda>u. running u \<noteq> IDLE) (timeline ?n))) =
          (\<Sum>p\<leftarrow>procs. burst p - remaining_of ?n p)"
    proof
      assume ni: "IDLE \<notin> pid ` set procs"
      with cur(1) have ci: "pid ?c \<noteq> IDLE" by (metis image_eqI)
      have "(\<Sum>p\<leftarrow>procs. burst p - remaining_of ?n p) =
            (\<Sum>p\<leftarrow>procs. if p = ?c then (burst p - remaining_of s p) + 1
                           else burst p - remaining_of s p)"
      proof (intro arg_cong [where f = sum_list] map_cong refl)
        fix p assume "p \<in> set procs"
        from pid_eq [OF this]
        show "burst p - remaining_of ?n p =
          (if p = ?c then (burst p - remaining_of s p) + 1 else burst p - remaining_of s p)"
          by (simp add: remaining_of_def n(3))
      qed
      also have "\<dots> = (\<Sum>p\<leftarrow>procs. burst p - remaining_of s p) + 1"
        by (rule sum_list_change_one [OF d cur(1)])
      finally show "int (length (filter (\<lambda>u. running u \<noteq> IDLE) (timeline ?n))) =
          (\<Sum>p\<leftarrow>procs. burst p - remaining_of ?n p)"
        using t(4) ni ci by (simp add: n)
    qed
    from a b o l bz show ?thesis unfolding srtf_trace_inv_def by blast
  qed
qed


lemma remaining_of_idle [simp]:
  "remaining_of (s\<lparr>clock := c, timeline := t\<rparr>) = remaining_of s"
  by (simp add: fun_eq_iff remaining_of_def)

lemma srtf_some_incomplete:
  assumes dp: "distinct (map pid procs)" and inv: "srtf_inv procs s"
    and c: "length (completed s) < length procs"
  shows "\<exists>p\<in>set procs. \<not> has_key (completed s) (pid p)"
proof (rule ccontr)
  assume "\<not> (\<exists>p\<in>set procs. \<not> has_key (completed s) (pid p))"
  then have "pid ` set procs \<subseteq> fst ` set (completed s)" by (auto simp: has_key_iff)
  then have "card (pid ` set procs) \<le> card (fst ` set (completed s))"
    by (intro card_mono) simp_all
  moreover have "card (pid ` set procs) = length procs"
    using dp by (metis distinct_card length_map set_map)
  moreover have "card (fst ` set (completed s)) \<le> length (completed s)"
    by (metis card_length length_map set_map)
  ultimately show False using c by simp
qed

lemma srtf_all_complete:
  assumes dp: "distinct (map pid procs)" and inv: "srtf_inv procs s"
    and c: "\<not> length (completed s) < length procs"
  shows "\<forall>p\<in>set procs. has_key (completed s) (pid p)"
proof -
  from inv have k: "distinct (map fst (completed s))" "fst ` set (completed s) \<subseteq> pid ` set procs"
    by (simp_all add: srtf_inv_def)
  have "card (fst ` set (completed s)) = length (completed s)"
    using k(1) by (metis distinct_card length_map set_map)
  moreover have "card (pid ` set procs) = length procs"
    using dp by (metis distinct_card length_map set_map)
  ultimately have "card (pid ` set procs) \<le> card (fst ` set (completed s))" using c by simp
  with k(2) have "fst ` set (completed s) = pid ` set procs"
    by (intro card_seteq) simp_all
  then show ?thesis by (simp add: has_key_iff)
qed

text \<open>
  The loop stops: every pass either runs a process, which lowers the sum of the remaining
  bursts, or is idle, which happens only before the latest arrival.
\<close>

definition srtf_measure :: "process list \<Rightarrow> py_error + srtf_state \<Rightarrow> nat" where
  "srtf_measure procs r =
     (case r of
        Inl e \<Rightarrow> 0
      | Inr s \<Rightarrow> nat (\<Sum>p\<leftarrow>procs. remaining_of s p) +
                 nat (Max (set (map arrival procs)) - clock s))"

lemma srtf_next_decreases:
  assumes dp: "distinct (map pid procs)" and inv: "srtf_inv procs s"
    and c: "length (completed s) < length procs"
  shows "srtf_measure procs (Inr (srtf_next procs s)) < srtf_measure procs (Inr s)"
proof (cases "srtf_available procs s = []")
  case True
  from srtf_some_incomplete [OF dp inv c] obtain p where
    p: "p \<in> set procs" "\<not> has_key (completed s) (pid p)" by blast
  with True have "clock s < arrival p"
    by (auto simp: srtf_available_def filter_empty_conv)
  moreover have "arrival p \<le> Max (set (map arrival procs))"
    using p(1) by (intro Max_ge) simp_all
  ultimately have "nat (Max (set (map arrival procs)) - (clock s + 1)) <
      nat (Max (set (map arrival procs)) - clock s)" by simp
  then show ?thesis
    by (simp add: srtf_measure_def srtf_next_idle [OF True])
next
  case False
  let ?c = "srtf_cur procs s" and ?n = "srtf_next procs s"
  note n = srtf_next_run [OF False] and cur = srtf_cur_available [OF False]
  from dp have inj: "inj_on pid (set procs)" and d: "distinct procs"
    by (simp_all add: distinct_map)
  have pid_eq: "pid q = pid ?c \<longleftrightarrow> q = ?c" if "q \<in> set procs" for q
    using inj that cur(1) by (auto simp: inj_on_def)
  have "(\<Sum>p\<leftarrow>procs. remaining_of ?n p) =
        (\<Sum>p\<leftarrow>procs. if p = ?c then remaining_of s p + (- 1) else remaining_of s p)"
  proof (intro arg_cong [where f = sum_list] map_cong refl)
    fix p assume "p \<in> set procs"
    from pid_eq [OF this]
    show "remaining_of ?n p = (if p = ?c then remaining_of s p + (- 1) else remaining_of s p)"
      by (simp add: remaining_of_def n(3))
  qed
  also have "\<dots> = (\<Sum>p\<leftarrow>procs. remaining_of s p) + (- 1)"
    by (rule sum_list_change_one [OF d cur(1)])
  finally have sm: "(\<Sum>p\<leftarrow>procs. remaining_of ?n p) = (\<Sum>p\<leftarrow>procs. remaining_of s p) - 1"
    by simp
  from inv have nn: "\<forall>p\<in>set procs. 0 \<le> remaining_of ?n p"
    using srtf_inv_next [OF dp inv] by (simp add: srtf_inv_def)
  then have "0 \<le> (\<Sum>p\<leftarrow>procs. remaining_of ?n p)" by (intro sum_list_nonneg) auto
  with sm have "nat (\<Sum>p\<leftarrow>procs. remaining_of ?n p) < nat (\<Sum>p\<leftarrow>procs. remaining_of s p)"
    by simp
  moreover have "nat (Max (set (map arrival procs)) - clock ?n) \<le>
      nat (Max (set (map arrival procs)) - clock s)" by (simp add: n)
  ultimately show ?thesis unfolding srtf_measure_def sum.case by linarith
qed

lemma while_option_least:
  assumes "while_option b c s = Some t"
  shows "\<exists>n. t = (c ^^ n) s \<and> \<not> b t \<and> (\<forall>j<n. b ((c ^^ j) s))"
proof -
  from assms have ex: "\<exists>k. \<not> b ((c ^^ k) s)"
    by (auto simp: while_option_def split: if_splits)
  let ?n = "LEAST k. \<not> b ((c ^^ k) s)"
  from assms ex have t: "t = (c ^^ ?n) s" by (simp add: while_option_def)
  from ex have "\<not> b ((c ^^ ?n) s)" by (rule LeastI_ex)
  moreover have "\<forall>j<?n. b ((c ^^ j) s)" using not_less_Least by blast
  ultimately show ?thesis using t by blast
qed

lemma srtf_loop_returns:
  assumes v: "valid_procs ps" and dp: "distinct (map pid ps)" and ne: "ps \<noteq> []"
  shows "\<exists>s. srtf_loop (srtf_procs ps) (dict_of arrival (srtf_procs ps))
               (Inr (srtf_init (srtf_procs ps))) = Some (Inr s) \<and>
             srtf_inv (srtf_procs ps) s \<and> srtf_trace_inv (srtf_procs ps) s \<and>
             \<not> length (completed s) < length (srtf_procs ps) \<and>
             (\<exists>n. s = srtf_state_at ps n \<and>
                  (\<forall>j<n. srtf_cond (srtf_procs ps) (srtf_at ps j)))"
proof -
  let ?procs = "srtf_procs ps"
  let ?am = "dict_of arrival ?procs"
  let ?b = "srtf_cond ?procs" and ?c = "srtf_body ?procs ?am"
  let ?P = "\<lambda>r. \<exists>s. r = Inr s \<and> srtf_inv ?procs s \<and> srtf_trace_inv ?procs s"
  note dpp = distinct_pids_srtf_procs [OF dp]
  have pne: "?procs \<noteq> []" using ne by (metis length_0_conv length_sort srtf_procs_def)
  have vb: "\<forall>p\<in>set ?procs. 0 < burst p" using v by (simp add: valid_procs_def)
  have init: "?P (Inr (srtf_init ?procs))"
    using srtf_inv_init [OF dpp vb] srtf_trace_init [OF pne dpp] by simp
  have step: "?P (?c r) \<and> srtf_measure ?procs (?c r) < srtf_measure ?procs r"
    if "?P r" "?b r" for r
  proof -
    from that obtain s where s: "r = Inr s" "srtf_inv ?procs s" "srtf_trace_inv ?procs s"
      "length (completed s) < length ?procs"
      by (auto simp: srtf_cond_def)
    have e: "?c (Inr s) = Inr (srtf_next ?procs s)"
      using srtf_step_next [OF dpp] srtf_inv_keys [OF s(2)] by (simp add: srtf_body_def)
    show ?thesis
      unfolding s(1) e
      using srtf_inv_next [OF dpp s(2)] srtf_trace_next [OF dpp s(2,3,4)]
        srtf_next_decreases [OF dpp s(2,4)] by simp
  qed
  from measure_while_option_Some [of ?P ?b ?c "srtf_measure ?procs", OF _ init] step
  obtain t where t: "while_option ?b ?c (Inr (srtf_init ?procs)) = Some t" by blast
  from while_option_rule [of ?P ?b ?c, OF _ t init] step have pt: "?P t" by blast
  then obtain s where s: "t = Inr s" "srtf_inv ?procs s" "srtf_trace_inv ?procs s" by blast
  from while_option_stop [OF t] have nb: "\<not> length (completed s) < length ?procs"
    by (simp add: s(1) srtf_cond_def)
  from while_option_least [OF t] obtain n where n: "t = (?c ^^ n) (Inr (srtf_init ?procs))"
    "\<forall>j<n. ?b ((?c ^^ j) (Inr (srtf_init ?procs)))"
    by blast
  then have "t = srtf_at ps n" "\<forall>j<n. ?b (srtf_at ps j)" by (simp_all add: srtf_at_def)
  with srtf_at_state [OF v dp, of n] s(1) have "s = srtf_state_at ps n \<and>
      (\<forall>j<n. ?b (srtf_at ps j))" by simp
  with t s nb show ?thesis unfolding srtf_loop_def by blast
qed









lemma srtf_scheduler_output:
  assumes v: "valid_procs ps" and dp: "distinct (map pid ps)" and ne: "ps \<noteq> []"
  shows "\<exists>n. (\<forall>j<n. srtf_cond (srtf_procs ps) (srtf_at ps j)) \<and>
      \<not> srtf_cond (srtf_procs ps) (srtf_at ps n) \<and>
      srtf_trace_inv (srtf_procs ps) (srtf_state_at ps n) \<and>
      (\<forall>p\<in>set ps. has_key (completed (srtf_state_at ps n)) (pid p)) \<and>
      srtf_scheduler ps =
        Some (Inr (gantt_segments (timeline (srtf_state_at ps n)),
                   map (\<lambda>p. make_row p (dict_get (completed (srtf_state_at ps n)) (pid p)))
                     (srtf_procs ps),
                   timeline (srtf_state_at ps n)))"
proof -
  let ?procs = "srtf_procs ps"
  from srtf_loop_returns [OF v dp ne] obtain s n where
    l: "srtf_loop ?procs (dict_of arrival ?procs) (Inr (srtf_init ?procs)) = Some (Inr s)"
    and i: "srtf_inv ?procs s" "srtf_trace_inv ?procs s"
    and nb: "\<not> length (completed s) < length ?procs"
    and n: "s = srtf_state_at ps n" "\<forall>j<n. srtf_cond ?procs (srtf_at ps j)" by blast
  note dpp = distinct_pids_srtf_procs [OF dp]
  from srtf_all_complete [OF dpp i(1) nb]
  have all: "\<forall>p\<in>set ?procs. has_key (completed s) (pid p)" .
  then have "missing_key (completed s) ?procs = None" by (simp add: missing_key_None)
  then have r: "srtf_results ?procs (completed s) =
      Inr (map (\<lambda>p. make_row p (dict_get (completed s) (pid p))) ?procs)"
    by (simp add: srtf_results_def)
  have out: "srtf_scheduler ps =
        Some (Inr (gantt_segments (timeline s),
                   map (\<lambda>p. make_row p (dict_get (completed s) (pid p))) ?procs, timeline s))"
    using ne l r by (simp add: srtf_scheduler_def Let_def srtf_procs_def)
  have "\<not> srtf_cond ?procs (srtf_at ps n)"
    using nb n(1) by (simp add: srtf_at_state [OF v dp] srtf_cond_def)
  with n i all out show ?thesis by auto
qed

text \<open>
  Claim C2 as stated fails on \<open>repeated_id\<close>, a valid list: after three passes two units have
  been executed and the unit 2 is idle, although the bursts of the two processes, both
  arrived at time 0, sum to 3; the dictionary holds one remaining burst and one completion
  time for the two of them; and the scheduler never returns, so no completion time is
  reported at all.
\<close>

theorem srtf_repeated_id_counterexample:
  "valid_procs repeated_id \<and> repeated_id \<noteq> [] \<and>
   (\<forall>p\<in>set repeated_id. arrival p = 0) \<and> (\<Sum>p\<leftarrow>repeated_id. burst p) = 3 \<and>
   srtf_at repeated_id 3 =
     Inr \<lparr>clock = 3,
          timeline = [\<lparr>tl_time = 0, running = ''A''\<rparr>, \<lparr>tl_time = 1, running = ''A''\<rparr>,
                      \<lparr>tl_time = 2, running = ''IDLE''\<rparr>],
          remaining_burst = [(''A'', 0)], completed = [(''A'', 2)]\<rparr> \<and>
   srtf_scheduler repeated_id = None"
  using repeated_id_facts repeated_id_run by (simp add: repeated_id_def)





section \<open>Result rows and timelines of the three schedulers\<close>

lemma srtf_rows_ok:
  assumes v: "valid_procs ps" and out: "srtf_scheduler ps = Some (Inr (g, rows, tline))"
  shows "\<forall>r\<in>set rows. row_ok r"
proof (cases "ps = []")
  case True
  with out show ?thesis by (simp add: srtf_scheduler_def)
next
  case False
  note dp = srtf_returns_distinct [OF out False]
  from srtf_scheduler_output [OF v dp False] out obtain n where
    n: "\<forall>p\<in>set ps. has_key (completed (srtf_state_at ps n)) (pid p)"
       "rows = map (\<lambda>p. make_row p (dict_get (completed (srtf_state_at ps n)) (pid p)))
                (srtf_procs ps)" by auto
  have "row_ok (make_row p (dict_get (completed (srtf_state_at ps n)) (pid p)))"
    if "p \<in> set ps" for p
    using srtf_inv_at [OF v dp, of n] n(1) that
    by (intro make_row_ok) (simp add: srtf_inv_def)
  then show ?thesis by (auto simp: n(2))
qed

text \<open>
  Claim C5. For every valid process list, every result row of FCFS and of SJF, and every
  result row SRTF returns, has a non-negative waiting time, a turnaround time of at least
  the burst, completion = arrival + turnaround and waiting = turnaround - burst. The three
  results are not empty promises: FCFS and SJF return one row per process, and SRTF returns
  (with one row per process) whenever the ids are distinct; with a repeated id its loop
  never ends and there is no row.
\<close>

theorem result_rows_invariants:
  assumes "valid_procs ps"
  shows "(\<forall>r\<in>set (fst (snd (fcfs_scheduler ps))). row_ok r) \<and>
         length (fst (snd (fcfs_scheduler ps))) = length ps \<and>
         (\<forall>r\<in>set (fst (snd (sjf_nonpreemptive_scheduler ps))). row_ok r) \<and>
         length (fst (snd (sjf_nonpreemptive_scheduler ps))) = length ps \<and>
         (\<forall>g rows tline. srtf_scheduler ps = Some (Inr (g, rows, tline)) \<longrightarrow>
            (\<forall>r\<in>set rows. row_ok r)) \<and>
         (distinct (map pid ps) \<longrightarrow>
            (\<exists>g rows tline. srtf_scheduler ps = Some (Inr (g, rows, tline)) \<and>
               length rows = length ps))"
proof -
  from assms have nb: "\<forall>p\<in>set ps. 0 \<le> burst p" by (auto simp: valid_procs_def)
  have 1: "\<forall>r\<in>set (fst (snd (fcfs_scheduler ps))). row_ok r"
    using fcfs_rows_ok by (simp add: fcfs_scheduler_run)
  have 2: "length (fst (snd (fcfs_scheduler ps))) = length ps"
    using fcfs_lengths [of "sort_key arrival ps"] by (simp add: fcfs_scheduler_run)
  obtain g rows tline where o: "sjf_nonpreemptive_scheduler ps = (g, rows, tline)"
    by (cases "sjf_nonpreemptive_scheduler ps")
  from sjf_output_sound(1) [OF nb o] o
  have 3: "\<forall>r\<in>set (fst (snd (sjf_nonpreemptive_scheduler ps))). row_ok r" by simp
  have 4: "length (fst (snd (sjf_nonpreemptive_scheduler ps))) = length ps"
  proof -
    from sjf_scheduler_at [of ps] obtain n where
      n: "\<not> sjf_cond (sjf_at ps n)"
         "sjf_nonpreemptive_scheduler ps =
            (gantt (sjf_at ps n), results (sjf_at ps n), timeline (sjf_at ps n))" by blast
    from sjf_sound_at [OF nb, of n] n(1) have "length (results (sjf_at ps n)) = length ps"
      by (simp add: sjf_sound_def sjf_cond_def sjf_procs_def)
    with n(2) show ?thesis by simp
  qed
  have 5: "\<forall>g rows tline. srtf_scheduler ps = Some (Inr (g, rows, tline)) \<longrightarrow>
            (\<forall>r\<in>set rows. row_ok r)"
    using srtf_rows_ok [OF assms] by blast
  have 6: "distinct (map pid ps) \<longrightarrow>
            (\<exists>g rows tline. srtf_scheduler ps = Some (Inr (g, rows, tline)) \<and>
               length rows = length ps)"
  proof
    assume dp: "distinct (map pid ps)"
    show "\<exists>g rows tline. srtf_scheduler ps = Some (Inr (g, rows, tline)) \<and>
               length rows = length ps"
    proof (cases "ps = []")
      case True
      then show ?thesis by (simp add: srtf_scheduler_def)
    next
      case False
      from srtf_scheduler_output [OF assms dp False] obtain n where
        "srtf_scheduler ps =
          Some (Inr (gantt_segments (timeline (srtf_state_at ps n)),
                   map (\<lambda>p. make_row p (dict_get (completed (srtf_state_at ps n)) (pid p)))
                     (srtf_procs ps),
                   timeline (srtf_state_at ps n)))" by blast
      moreover have "length (map (\<lambda>p. make_row p (dict_get (completed (srtf_state_at ps n)) (pid p)))
                     (srtf_procs ps)) = length ps" by (simp add: srtf_procs_def)
      ultimately show ?thesis by blast
    qed
  qed
  from 1 2 3 4 5 6 show ?thesis by blast
qed

theorem result_rows_invariants_witness:
  "valid_procs scenario \<and>
   row_ok \<lparr>row_pid = ''P4'', AT = 3, BT = 6, CT = 22, TAT = 19, WT = 13\<rparr> \<and>
   row_ok \<lparr>row_pid = ''P3'', AT = 2, BT = 8, CT = 22, TAT = 20, WT = 12\<rparr> \<and>
   row_ok \<lparr>row_pid = ''P1'', AT = 0, BT = 5, CT = 8, TAT = 8, WT = 3\<rparr> \<and>
   length (fst (snd (fcfs_scheduler scenario))) = 4"
proof -
  have v: "valid_procs scenario" by (simp add: valid_procs_def scenario_def)
  note t = result_rows_invariants [OF v]
  from t have "\<forall>r\<in>set (fst (snd (fcfs_scheduler scenario))). row_ok r" by blast
  then have a: "row_ok \<lparr>row_pid = ''P4'', AT = 3, BT = 6, CT = 22, TAT = 19, WT = 13\<rparr>"
    by (simp add: scenario_fcfs)
  from t have "\<forall>r\<in>set (fst (snd (sjf_nonpreemptive_scheduler scenario))). row_ok r" by blast
  then have b: "row_ok \<lparr>row_pid = ''P3'', AT = 2, BT = 8, CT = 22, TAT = 20, WT = 12\<rparr>"
    by (simp add: scenario_sjf)
  from t scenario_srtf
  have "\<forall>r\<in>set [\<lparr>row_pid = ''P1'', AT = 0, BT = 5, CT = 8, TAT = 8, WT = 3\<rparr>,
        \<lparr>row_pid = ''P2'', AT = 1, BT = 3, CT = 4, TAT = 3, WT = 0\<rparr>,
        \<lparr>row_pid = ''P3'', AT = 2, BT = 8, CT = 22, TAT = 20, WT = 12\<rparr>,
        \<lparr>row_pid = ''P4'', AT = 3, BT = 6, CT = 14, TAT = 11, WT = 5\<rparr>]. row_ok r" by blast
  then have c: "row_ok \<lparr>row_pid = ''P1'', AT = 0, BT = 5, CT = 8, TAT = 8, WT = 3\<rparr>" by simp
  from t have "length (fst (snd (fcfs_scheduler scenario))) = length scenario" by blast
  with v a b c show ?thesis by (simp add: scenario_length)
qed


text \<open>
  A timeline covers the run when its time values are exactly 0, 1, ... up to the unit
  before the last completion time, in this order: one record for every unit, none missing,
  none twice.
\<close>

definition timeline_covers :: "result_row list \<Rightarrow> timeline_unit list \<Rightarrow> bool" where
  "timeline_covers rows tline \<longleftrightarrow>
     rows \<noteq> [] \<and> map tl_time tline = [0..Max (set (map CT rows)) - 1]"

definition occupants_known :: "process list \<Rightarrow> timeline_unit list \<Rightarrow> bool" where
  "occupants_known ps tline \<longleftrightarrow> (\<forall>u\<in>set tline. running u = IDLE \<or> running u \<in> pid ` set ps)"

lemma fcfs_covers:
  assumes nb: "\<forall>p\<in>set ps. 0 \<le> burst p" and ne: "ps \<noteq> []"
  shows "timeline_covers (fst (snd (fcfs_scheduler ps))) (snd (snd (fcfs_scheduler ps)))"
proof -
  let ?o = "sort_key arrival ps"
  let ?s = "fcfs_run ?o"
  have one: "?o \<noteq> []" using ne by (metis length_0_conv length_sort)
  have nbo: "\<forall>p\<in>set ?o. 0 \<le> burst p" using nb by simp
  have rne: "results ?s \<noteq> []" using fcfs_lengths [of ?o] one by auto
  have l: "CT (last (results ?s)) = clock ?s" using fcfs_clock_CT [of ?o] one by simp
  have "Max (set (map CT (results ?s))) = clock ?s"
  proof (rule Max_eqI)
    show "finite (set (map CT (results ?s)))" by simp
    show "y \<le> clock ?s" if "y \<in> set (map CT (results ?s))" for y
      using that fcfs_clock_mono [OF nbo] by auto
    show "clock ?s \<in> set (map CT (results ?s))"
      using rne l by (metis image_eqI last_in_set list.set_map)
  qed
  with rne fcfs_timeline_times [OF nbo] show ?thesis
    by (simp add: timeline_covers_def fcfs_scheduler_run)
qed

lemma sum_list_sort_key: "sum_list (map f (sort_key g xs)) = sum_list (map (f :: 'a \<Rightarrow> int) xs)"
proof -
  have "mset (map f (sort_key g xs)) = mset (map f xs)" by simp
  then show ?thesis by (metis sum_mset_sum_list)
qed

lemma srtf_timeline_facts:
  assumes v: "valid_procs ps" and dp: "distinct (map pid ps)" and ne: "ps \<noteq> []"
  shows "\<exists>g rows tline. srtf_scheduler ps = Some (Inr (g, rows, tline)) \<and>
           timeline_covers rows tline \<and> occupants_known ps tline \<and>
           (IDLE \<notin> pid ` set ps \<longrightarrow>
              int (length (filter (\<lambda>u. running u \<noteq> IDLE) tline)) = (\<Sum>p\<leftarrow>ps. burst p))"
proof -
  let ?procs = "srtf_procs ps"
  from srtf_scheduler_output [OF v dp ne] obtain n where n:
    "srtf_trace_inv ?procs (srtf_state_at ps n)"
    "\<forall>p\<in>set ps. has_key (completed (srtf_state_at ps n)) (pid p)"
    "srtf_scheduler ps =
        Some (Inr (gantt_segments (timeline (srtf_state_at ps n)),
                   map (\<lambda>p. make_row p (dict_get (completed (srtf_state_at ps n)) (pid p))) ?procs,
                   timeline (srtf_state_at ps n)))" by blast
  let ?s = "srtf_state_at ps n"
  let ?rows = "map (\<lambda>p. make_row p (dict_get (completed ?s) (pid p))) ?procs"
  note inv = srtf_inv_at [OF v dp, of n]
  note dpp = distinct_pids_srtf_procs [OF dp]
  have len: "length ?procs \<le> length (completed ?s)"
  proof -
    from n(2) have "pid ` set ?procs \<subseteq> fst ` set (completed ?s)" by (auto simp: has_key_iff)
    then have "card (pid ` set ?procs) \<le> card (fst ` set (completed ?s))"
      by (intro card_mono) simp_all
    moreover have "card (pid ` set ?procs) = length ?procs"
      using dpp by (metis distinct_card length_map set_map)
    moreover have "card (fst ` set (completed ?s)) \<le> length (completed ?s)"
      by (metis card_length length_map set_map)
    ultimately show ?thesis by simp
  qed
  from n(1) len have t: "map tl_time (timeline ?s) = [0..clock ?s - 1]"
    "\<forall>u\<in>set (timeline ?s). running u = IDLE \<or> running u \<in> pid ` set ?procs"
    "\<exists>p\<in>set ?procs. dict_get (completed ?s) (pid p) = clock ?s"
    "IDLE \<notin> pid ` set ?procs \<longrightarrow>
        int (length (filter (\<lambda>u. running u \<noteq> IDLE) (timeline ?s))) =
          (\<Sum>p\<leftarrow>?procs. burst p - remaining_of ?s p)"
    unfolding srtf_trace_inv_def by blast+
  have cts: "set (map CT ?rows) = (\<lambda>p. dict_get (completed ?s) (pid p)) ` set ps"
    by (simp add: image_image)
  have "Max (set (map CT ?rows)) = clock ?s"
  proof (rule Max_eqI)
    show "finite (set (map CT ?rows))" by simp
    show "y \<le> clock ?s" if "y \<in> set (map CT ?rows)" for y
      using that inv n(2) unfolding cts srtf_inv_def by auto
    from t(3) obtain p where p: "p \<in> set ps" "dict_get (completed ?s) (pid p) = clock ?s"
      by auto
    show "clock ?s \<in> set (map CT ?rows)"
      unfolding cts using p by (intro image_eqI [where x = p]) simp_all
  qed
  moreover have "?rows \<noteq> []"
    using ne by (metis length_0_conv length_map length_sort srtf_procs_def)
  ultimately have a: "timeline_covers ?rows (timeline ?s)"
    using t(1) by (simp add: timeline_covers_def)
  have b: "occupants_known ps (timeline ?s)" using t(2) by (simp add: occupants_known_def)
  have zero: "remaining_of ?s p = 0" if "p \<in> set ?procs" for p
    using inv n(2) that by (simp add: srtf_inv_def)
  have "(\<Sum>p\<leftarrow>?procs. burst p - remaining_of ?s p) = (\<Sum>p\<leftarrow>?procs. burst p)"
    by (intro arg_cong [where f = sum_list] map_cong refl) (simp add: zero)
  also have "\<dots> = (\<Sum>p\<leftarrow>ps. burst p)" unfolding srtf_procs_def by (rule sum_list_sort_key)
  finally have c: "IDLE \<notin> pid ` set ps \<longrightarrow>
      int (length (filter (\<lambda>u. running u \<noteq> IDLE) (timeline ?s))) = (\<Sum>p\<leftarrow>ps. burst p)"
    using t(4) by simp
  from n(3) a b c show ?thesis by blast
qed

text \<open>A valid one-process input whose id is the string the schedulers use for an idle CPU.\<close>

definition idle_named :: "process list" where
  "idle_named = [\<lparr>pid = ''IDLE'', arrival = 0, burst = 1, priority = 0\<rparr>]"

text \<open>
  Claim C6 as stated fails on two valid, non-empty lists. On \<open>idle_named\<close>, whose ids are
  distinct, SRTF returns a timeline with no unit whose occupant differs from the idle
  sentinel, while the bursts sum to 1 (the process's segment is also dropped from the Gantt
  chart). On \<open>repeated_id\<close>, in which two processes share an id, SRTF does not return, so
  there is no timeline.
\<close>

theorem srtf_busy_time_counterexample:
  "valid_procs idle_named \<and> idle_named \<noteq> [] \<and> distinct (map pid idle_named) \<and>
   srtf_scheduler idle_named =
     Some (Inr ([], [\<lparr>row_pid = ''IDLE'', AT = 0, BT = 1, CT = 1, TAT = 1, WT = 0\<rparr>],
                [\<lparr>tl_time = 0, running = ''IDLE''\<rparr>])) \<and>
   int (length (filter (\<lambda>u. running u \<noteq> IDLE) [\<lparr>tl_time = 0, running = ''IDLE''\<rparr>])) \<noteq>
     (\<Sum>p\<leftarrow>idle_named. burst p) \<and>
   valid_procs repeated_id \<and> repeated_id \<noteq> [] \<and> srtf_scheduler repeated_id = None"
proof -
  have "srtf_scheduler idle_named =
     Some (Inr ([], [\<lparr>row_pid = ''IDLE'', AT = 0, BT = 1, CT = 1, TAT = 1, WT = 0\<rparr>],
                [\<lparr>tl_time = 0, running = ''IDLE''\<rparr>]))" by code_simp
  with repeated_id_facts show ?thesis by (simp add: valid_procs_def idle_named_def IDLE_def)
qed

text \<open>
  Claim C6, amended. For every non-empty valid process list, the timelines of FCFS and SJF
  cover the run (time values exactly 0 up to the unit before the last completion time, one
  record per unit) and every occupant is a process id or the idle sentinel; and after any
  number of passes of the SRTF loop every remaining burst in the dictionary is
  non-negative. When moreover the ids are pairwise distinct, SRTF returns and its timeline
  has the same two properties; and if in addition no id equals the sentinel \<open>IDLE\<close>, the
  number of its non-idle units is the sum of all bursts.
\<close>

theorem timelines_cover_the_run:
  assumes "valid_procs ps" and "ps \<noteq> []"
  shows "timeline_covers (fst (snd (fcfs_scheduler ps))) (snd (snd (fcfs_scheduler ps))) \<and>
         occupants_known ps (snd (snd (fcfs_scheduler ps))) \<and>
         timeline_covers (fst (snd (sjf_nonpreemptive_scheduler ps)))
           (snd (snd (sjf_nonpreemptive_scheduler ps))) \<and>
         occupants_known ps (snd (snd (sjf_nonpreemptive_scheduler ps))) \<and>
         (\<forall>k. \<exists>s. srtf_at ps k = Inr s \<and> (\<forall>kv\<in>set (remaining_burst s). 0 \<le> snd kv)) \<and>
         (distinct (map pid ps) \<longrightarrow>
            (\<exists>g rows tline. srtf_scheduler ps = Some (Inr (g, rows, tline)) \<and>
               timeline_covers rows tline \<and> occupants_known ps tline \<and>
               (IDLE \<notin> pid ` set ps \<longrightarrow>
                  int (length (filter (\<lambda>u. running u \<noteq> IDLE) tline)) = (\<Sum>p\<leftarrow>ps. burst p))))"
proof -
  from assms(1) have nb: "\<forall>p\<in>set ps. 0 \<le> burst p" by (auto simp: valid_procs_def)
  have 1: "timeline_covers (fst (snd (fcfs_scheduler ps))) (snd (snd (fcfs_scheduler ps)))"
    by (rule fcfs_covers [OF nb assms(2)])
  have 2: "occupants_known ps (snd (snd (fcfs_scheduler ps)))"
    using fcfs_timeline_occupants [of _ "sort_key arrival ps"]
    by (auto simp: occupants_known_def fcfs_scheduler_run)
  obtain g rows tline where o: "sjf_nonpreemptive_scheduler ps = (g, rows, tline)"
    by (cases "sjf_nonpreemptive_scheduler ps")
  from sjf_output_sound(2,3) [OF nb o] assms(2) o
  have 3: "timeline_covers (fst (snd (sjf_nonpreemptive_scheduler ps)))
           (snd (snd (sjf_nonpreemptive_scheduler ps)))"
    and 4: "occupants_known ps (snd (snd (sjf_nonpreemptive_scheduler ps)))"
    by (simp_all add: timeline_covers_def occupants_known_def)
  have 5: "\<forall>k. \<exists>s. srtf_at ps k = Inr s \<and> (\<forall>kv\<in>set (remaining_burst s). 0 \<le> snd kv)"
    using srtf_remaining_nonneg [OF assms(1)] by blast
  have 6: "distinct (map pid ps) \<longrightarrow>
            (\<exists>g rows tline. srtf_scheduler ps = Some (Inr (g, rows, tline)) \<and>
               timeline_covers rows tline \<and> occupants_known ps tline \<and>
               (IDLE \<notin> pid ` set ps \<longrightarrow>
                  int (length (filter (\<lambda>u. running u \<noteq> IDLE) tline)) = (\<Sum>p\<leftarrow>ps. burst p)))"
    using srtf_timeline_facts [OF assms(1) _ assms(2)] by blast
  from 1 2 3 4 5 6 show ?thesis by blast
qed

theorem timelines_cover_the_run_witness:
  "valid_procs scenario \<and> scenario \<noteq> [] \<and> distinct (map pid scenario) \<and>
   IDLE \<notin> pid ` set scenario \<and>
   timeline_covers (fst (snd (fcfs_scheduler scenario))) (snd (snd (fcfs_scheduler scenario))) \<and>
   timeline_covers (fst (snd (sjf_nonpreemptive_scheduler scenario)))
     (snd (snd (sjf_nonpreemptive_scheduler scenario))) \<and>
   (\<exists>s. srtf_at scenario 7 = Inr s \<and> (\<forall>kv\<in>set (remaining_burst s). 0 \<le> snd kv)) \<and>
   (\<exists>g rows tline. srtf_scheduler scenario = Some (Inr (g, rows, tline)) \<and>
      timeline_covers rows tline \<and>
      int (length (filter (\<lambda>u. running u \<noteq> IDLE) tline)) = 22)"
proof -
  have v: "valid_procs scenario" by (simp add: valid_procs_def scenario_def)
  have ne: "scenario \<noteq> []" by (simp add: scenario_def)
  have d: "distinct (map pid scenario)" by (simp add: scenario_def)
  have i: "IDLE \<notin> pid ` set scenario" by (simp add: scenario_def IDLE_def)
  have b: "(\<Sum>p\<leftarrow>scenario. burst p) = 22" by (simp add: scenario_def)
  note t = timelines_cover_the_run [OF v ne]
  from t d i b have "\<exists>g rows tline. srtf_scheduler scenario = Some (Inr (g, rows, tline)) \<and>
      timeline_covers rows tline \<and>
      int (length (filter (\<lambda>u. running u \<noteq> IDLE) tline)) = 22" by force
  with t v ne d i show ?thesis by blast
qed

section \<open>Merging the timeline into Gantt segments\<close>

text \<open>
  The runs of a timeline, idle ones included, read from left to right: \<open>cur\<close> occupies the
  CPU since \<open>st\<close>; a unit with another occupant closes the run at that unit's time; the last
  run is closed at \<open>e\<close>.
\<close>

fun close_runs :: "int \<Rightarrow> string \<Rightarrow> int \<Rightarrow> timeline_unit list \<Rightarrow> segment list" where
  "close_runs e cur st [] = [\<lparr>seg_pid = cur, seg_start = st, seg_finish = e\<rparr>]"
| "close_runs e cur st (u # us) =
     (if running u \<noteq> cur
      then \<lparr>seg_pid = cur, seg_start = st, seg_finish = tl_time u\<rparr> #
           close_runs e (running u) (tl_time u) us
      else close_runs e cur st us)"

definition runs_of :: "timeline_unit list \<Rightarrow> segment list" where
  "runs_of tline =
     (if tline = [] then []
      else close_runs (tl_time (last tline) + 1) (running (hd tline)) (tl_time (hd tline))
             (tl tline))"

text \<open>The units a run stands for.\<close>

definition run_units :: "segment \<Rightarrow> timeline_unit list" where
  "run_units r = units (seg_pid r) (seg_start r) (seg_finish r)"

text \<open>
  A timeline at unit granularity: its time values are consecutive integers, starting at
  \<open>t0\<close>.
\<close>

definition unit_granular :: "int \<Rightarrow> timeline_unit list \<Rightarrow> bool" where
  "unit_granular t0 tline \<longleftrightarrow> map tl_time tline = [t0..t0 + int (length tline) - 1]"

lemma merge_loop_close:
  "(case merge_loop cur st segs us of
      (c, s, g) \<Rightarrow> g @ (if c \<noteq> IDLE then [\<lparr>seg_pid = c, seg_start = s, seg_finish = e\<rparr>] else [])) =
   segs @ filter (\<lambda>r. seg_pid r \<noteq> IDLE) (close_runs e cur st us)"
  by (induction us arbitrary: cur st segs) simp_all

lemma gantt_segments_runs:
  "gantt_segments tline = filter (\<lambda>r. seg_pid r \<noteq> IDLE) (runs_of tline)"
proof (cases "tline = []")
  case True
  then show ?thesis by (simp add: gantt_segments_def runs_of_def)
next
  case False
  from merge_loop_close [where cur = "running (hd tline)" and st = "tl_time (hd tline)"
      and segs = "[]" and us = "tl tline" and e = "tl_time (last tline) + 1"]
  show ?thesis using False
    by (auto simp add: gantt_segments_def runs_of_def Let_def split: prod.splits)
qed

lemma unit_granular_Cons:
  "unit_granular t (u # us) \<longleftrightarrow> tl_time u = t \<and> unit_granular (t + 1) us"
proof -
  have "[t..t + int (length (u # us)) - 1] = t # [t + 1..t + 1 + int (length us) - 1]"
    by (subst upto_rec1) (simp_all add: algebra_simps)
  then show ?thesis by (simp add: unit_granular_def)
qed

lemma units_snoc: "a \<le> b \<Longrightarrow> units w a (b + 1) = units w a b @ [\<lparr>tl_time = b, running = w\<rparr>]"
  by (simp add: units_def upto_rec2)

lemma units_single: "units w a (a + 1) = [\<lparr>tl_time = a, running = w\<rparr>]"
  by (simp add: units_def)

lemma close_runs_concat:
  "unit_granular t us \<Longrightarrow> st \<le> t \<Longrightarrow>
   concat (map run_units (close_runs (t + int (length us)) cur st us)) = units cur st t @ us"
proof (induction us arbitrary: cur st t)
  case Nil
  then show ?case by (simp add: run_units_def)
next
  case (Cons u us)
  from Cons.prems have u: "tl_time u = t" and g: "unit_granular (t + 1) us"
    by (simp_all add: unit_granular_Cons)
  have e: "t + int (length (u # us)) = (t + 1) + int (length us)" by simp
  show ?case
  proof (cases "running u \<noteq> cur")
    case True
    have "u = \<lparr>tl_time = t, running = running u\<rparr>" using u by simp
    then have one: "units (running u) t (t + 1) = [u]" by (simp add: units_single)
    from Cons.IH [OF g, of t "running u"] one True u show ?thesis
      unfolding e by (simp add: run_units_def)
  next
    case False
    then have "u = \<lparr>tl_time = t, running = cur\<rparr>" using u by simp
    then have "units cur st (t + 1) = units cur st t @ [u]"
      using Cons.prems(2) by (simp add: units_snoc)
    with Cons.IH [OF g, of st cur] Cons.prems(2) False show ?thesis
      unfolding e by simp
  qed
qed

lemma close_runs_hd:
  "close_runs e cur st us \<noteq> [] \<and> seg_pid (hd (close_runs e cur st us)) = cur \<and>
   seg_start (hd (close_runs e cur st us)) = st"
  by (induction us arbitrary: cur st) simp_all


lemma close_runs_nonempty:
  "unit_granular t us \<Longrightarrow> st < t \<Longrightarrow>
   \<forall>r\<in>set (close_runs (t + int (length us)) cur st us). seg_start r < seg_finish r"
proof (induction us arbitrary: cur st t)
  case Nil
  then show ?case by simp
next
  case (Cons u us)
  from Cons.prems have u: "tl_time u = t" and g: "unit_granular (t + 1) us"
    by (simp_all add: unit_granular_Cons)
  have e: "t + int (length (u # us)) = (t + 1) + int (length us)" by simp
  show ?case
  proof (cases "running u \<noteq> cur")
    case True
    from Cons.IH [OF g, of t "running u"] True u Cons.prems(2) show ?thesis
      unfolding e by simp
  next
    case False
    from Cons.prems(2) have "st < t + 1" by simp
    from Cons.IH [OF g this, of cur] False show ?thesis unfolding e by simp
  qed
qed

text \<open>
  Two runs that follow each other: the occupant changes, and the second starts where the
  first ends.
\<close>

definition run_change :: "segment \<Rightarrow> segment \<Rightarrow> bool" where
  "run_change r r' \<longleftrightarrow> seg_pid r \<noteq> seg_pid r' \<and> seg_finish r = seg_start r'"

lemma close_runs_successive: "successively run_change (close_runs e cur st us)"
proof (induction us arbitrary: cur st)
  case Nil
  show ?case by simp
next
  case (Cons u us)
  show ?case
  proof (cases "running u \<noteq> cur")
    case True
    from close_runs_hd [of e "running u" "tl_time u" us] True Cons.IH
    show ?thesis by (simp add: successively_Cons run_change_def)
  next
    case False
    with Cons.IH show ?thesis by simp
  qed
qed

lemma last_upto_int: "i \<le> j \<Longrightarrow> last [i..j] = j"
  by (simp add: upto_rec2)

lemma runs_of_facts:
  assumes "unit_granular t0 tline"
  shows "concat (map run_units (runs_of tline)) = tline \<and>
         (\<forall>r\<in>set (runs_of tline). seg_start r < seg_finish r) \<and>
         successively run_change (runs_of tline)"
proof (cases tline)
  case Nil
  then show ?thesis by (simp add: runs_of_def)
next
  case (Cons u us)
  from assms Cons have u: "tl_time u = t0" and g: "unit_granular (t0 + 1) us"
    by (simp_all add: unit_granular_Cons)
  have m: "map tl_time tline = [t0..t0 + int (length tline) - 1]"
    using assms by (simp add: unit_granular_def)
  have "last [t0..t0 + int (length tline) - 1] = t0 + int (length tline) - 1"
    using Cons by (intro last_upto_int) simp
  with m have "last (map tl_time tline) = t0 + int (length tline) - 1" by simp
  moreover have "last (map tl_time tline) = tl_time (last tline)"
    using Cons by (intro last_map) simp
  ultimately have e: "tl_time (last tline) + 1 = (t0 + 1) + int (length us)"
    using Cons by simp
  have r: "runs_of tline = close_runs ((t0 + 1) + int (length us)) (running u) t0 us"
    unfolding runs_of_def e using Cons u by simp
  have one: "units (running u) t0 (t0 + 1) = [u]" using u by (simp add: units_single)
  have 1: "concat (map run_units (runs_of tline)) = tline"
    using close_runs_concat [OF g, of t0 "running u"] one Cons unfolding r by simp
  have 2: "\<forall>r\<in>set (runs_of tline). seg_start r < seg_finish r"
    using close_runs_nonempty [OF g, of t0 "running u"] unfolding r by simp
  have 3: "successively run_change (runs_of tline)"
    unfolding r by (rule close_runs_successive)
  from 1 2 3 show ?thesis by blast
qed


text \<open>Every pass of the SRTF loop appends one unit, stamped with the clock, and advances it.\<close>

lemma srtf_step_timeline:
  "srtf_step procs am s = Inr s' \<Longrightarrow>
   clock s' = clock s + 1 \<and> (\<exists>w. timeline s' = timeline s @ [\<lparr>tl_time = clock s, running = w\<rparr>])"
  by (auto simp: srtf_step_def Let_def split: option.splits if_splits)

definition srtf_clock_ok :: "py_error + srtf_state \<Rightarrow> bool" where
  "srtf_clock_ok r =
     (case r of
        Inl e \<Rightarrow> True
      | Inr s \<Rightarrow> 0 \<le> clock s \<and> map tl_time (timeline s) = [0..clock s - 1])"

lemma srtf_clock_ok_body:
  assumes "srtf_clock_ok r"
  shows "srtf_clock_ok (srtf_body procs am r)"
proof (cases r)
  case (Inl e)
  then show ?thesis by (simp add: srtf_body_def srtf_clock_ok_def)
next
  case (Inr s)
  with assms have i: "0 \<le> clock s" "map tl_time (timeline s) = [0..clock s - 1]"
    by (simp_all add: srtf_clock_ok_def)
  show ?thesis
  proof (cases "srtf_step procs am s")
    case (Inl e)
    with Inr show ?thesis by (simp add: srtf_body_def srtf_clock_ok_def)
  next
    case step: (Inr s')
    from srtf_step_timeline [OF step] obtain w where
      s': "clock s' = clock s + 1" "timeline s' = timeline s @ [\<lparr>tl_time = clock s, running = w\<rparr>]"
      by blast
    have "[0..clock s - 1] @ [clock s] = [0..clock s + 1 - 1]"
      using i(1) upto_rec2 [of 0 "clock s"] by simp
    with i s' have "srtf_clock_ok (Inr s')" by (simp add: srtf_clock_ok_def)
    with Inr step show ?thesis by (simp add: srtf_body_def)
  qed
qed

lemma srtf_output_merged:
  assumes "srtf_scheduler ps = Some (Inr (g, rows, tline))"
  shows "unit_granular 0 tline \<and> g = gantt_segments tline"
proof (cases "ps = []")
  case True
  with assms show ?thesis
    by (auto simp: srtf_scheduler_def unit_granular_def gantt_segments_def)
next
  case False
  let ?procs = "sort_key arrival ps"
  let ?am = "dict_of arrival ?procs"
  from assms False have c: "(case srtf_loop ?procs ?am (Inr (srtf_init ?procs)) of
        None \<Rightarrow> None
      | Some (Inl e) \<Rightarrow> Some (Inl e)
      | Some (Inr s) \<Rightarrow>
          (case srtf_results ?procs (completed s) of
             Inl e \<Rightarrow> Some (Inl e)
           | Inr rows \<Rightarrow> Some (Inr (gantt_segments (timeline s), rows, timeline s)))) =
      Some (Inr (g, rows, tline))"
    by (simp add: srtf_scheduler_def Let_def)
  obtain s where
    l: "srtf_loop ?procs ?am (Inr (srtf_init ?procs)) = Some (Inr s)"
    and o: "g = gantt_segments (timeline s)" "tline = timeline s"
  proof (cases "srtf_loop ?procs ?am (Inr (srtf_init ?procs))")
    case None
    with c show ?thesis by simp
  next
    case (Some r)
    show ?thesis
    proof (cases r)
      case (Inl e)
      with c Some show ?thesis by simp
    next
      case (Inr s)
      show ?thesis
      proof (cases "srtf_results ?procs (completed s)")
        case (Inl e)
        with c Some Inr show ?thesis by simp
      next
        case res: (Inr rs)
        with c Some Inr have "g = gantt_segments (timeline s)" "tline = timeline s" by auto
        with Some Inr that show ?thesis by simp
      qed
    qed
  qed
  from l have w: "while_option (srtf_cond ?procs) (srtf_body ?procs ?am)
      (Inr (srtf_init ?procs)) = Some (Inr s)" by (simp add: srtf_loop_def)
  have "srtf_clock_ok (Inr s)"
  proof (rule while_option_rule [OF _ w])
    show "srtf_clock_ok (Inr (srtf_init ?procs))"
      by (simp add: srtf_clock_ok_def srtf_init_def)
  next
    fix r assume "srtf_clock_ok r"
    then show "srtf_clock_ok (srtf_body ?procs ?am r)" by (rule srtf_clock_ok_body)
  qed
  then have c: "0 \<le> clock s" "map tl_time (timeline s) = [0..clock s - 1]"
    by (simp_all add: srtf_clock_ok_def)
  from c(2) have "length (timeline s) = length [0..clock s - 1]" by (metis length_map)
  with c(1) have "int (length (timeline s)) = clock s" by simp
  with c(2) have "unit_granular 0 (timeline s)" by (simp add: unit_granular_def)
  with o show ?thesis by simp
qed

text \<open>
  Claim C8. For a timeline at unit granularity, the merging step returns exactly the
  non-idle runs of a decomposition of the timeline into runs: the runs, idle ones included
  and in order, make up the whole timeline; every run is non-empty and has one occupant;
  two runs that follow each other have different occupants and meet at the same time value,
  so every run is maximal, no shorter sequence of runs exists, and each boundary is a change
  of occupant. The timeline itself is not changed: SRTF returns it as it is, at unit
  granularity from 0, together with the segments merged from it.
\<close>

theorem gantt_segments_maximal_runs:
  "(unit_granular t0 tline \<longrightarrow>
      (\<exists>runs. concat (map run_units runs) = tline \<and>
         (\<forall>r\<in>set runs. seg_start r < seg_finish r) \<and>
         successively run_change runs \<and>
         gantt_segments tline = filter (\<lambda>r. seg_pid r \<noteq> IDLE) runs)) \<and>
   (srtf_scheduler ps = Some (Inr (g, rows, tline')) \<longrightarrow>
      unit_granular 0 tline' \<and> g = gantt_segments tline')"
  using runs_of_facts [of t0 tline] gantt_segments_runs [of tline]
    srtf_output_merged [of ps g rows tline'] by blast

theorem gantt_segments_maximal_runs_witness:
  "unit_granular 0 [\<lparr>tl_time = 0, running = ''IDLE''\<rparr>, \<lparr>tl_time = 1, running = ''A''\<rparr>,
                    \<lparr>tl_time = 2, running = ''A''\<rparr>, \<lparr>tl_time = 3, running = ''B''\<rparr>] \<and>
   (\<exists>runs. concat (map run_units runs) =
              [\<lparr>tl_time = 0, running = ''IDLE''\<rparr>, \<lparr>tl_time = 1, running = ''A''\<rparr>,
               \<lparr>tl_time = 2, running = ''A''\<rparr>, \<lparr>tl_time = 3, running = ''B''\<rparr>] \<and>
      successively run_change runs \<and>
      filter (\<lambda>r. seg_pid r \<noteq> IDLE) runs =
        [\<lparr>seg_pid = ''A'', seg_start = 1, seg_finish = 3\<rparr>,
         \<lparr>seg_pid = ''B'', seg_start = 3, seg_finish = 4\<rparr>])"
proof -
  let ?t = "[\<lparr>tl_time = 0, running = ''IDLE''\<rparr>, \<lparr>tl_time = 1, running = ''A''\<rparr>,
             \<lparr>tl_time = 2, running = ''A''\<rparr>, \<lparr>tl_time = 3, running = ''B''\<rparr>]"
  have u: "unit_granular 0 ?t" by (simp add: unit_granular_def upto_rec1)
  have g: "gantt_segments ?t =
        [\<lparr>seg_pid = ''A'', seg_start = 1, seg_finish = 3\<rparr>,
         \<lparr>seg_pid = ''B'', seg_start = 3, seg_finish = 4\<rparr>]"
    by (simp add: gantt_segments_def IDLE_def)
  from gantt_segments_maximal_runs [of 0 ?t] u obtain runs where
    r: "concat (map run_units runs) = ?t" "successively run_change runs"
    "gantt_segments ?t = filter (\<lambda>r. seg_pid r \<noteq> IDLE) runs" by blast
  from r(3) g have "filter (\<lambda>r. seg_pid r \<noteq> IDLE) runs =
        [\<lparr>seg_pid = ''A'', seg_start = 1, seg_finish = 3\<rparr>,
         \<lparr>seg_pid = ''B'', seg_start = 3, seg_finish = 4\<rparr>]" by simp
  with u r(1,2) show ?thesis by (iprover intro: exI conjI)
qed

section \<open>Properties of the input validation\<close>

text \<open>
  Names for what the loop sees of row \<open>i\<close> of the table it was given: the cell of a column
  after \<open>fillna(0)\<close>, the id under which the row is reported, the value of the optional
  priority column, and what the loop body does with the row.
\<close>

definition field :: "dataframe \<Rightarrow> nat \<Rightarrow> string \<Rightarrow> cell option" where
  "field df i name = map_option fill_cell ((iterrows df ! i) name)"

definition reported_id :: "builtins \<Rightarrow> dataframe \<Rightarrow> nat \<Rightarrow> string" where
  "reported_id B df i =
     (if ''pid'' \<in> set (columns df)
      then (case field df i ''pid'' of Some c \<Rightarrow> py_str B c | None \<Rightarrow> ''unknown'')
      else ''P'' @ str_of_nat (i + 1))"

definition priority_ok :: "builtins \<Rightarrow> dataframe \<Rightarrow> nat \<Rightarrow> int \<Rightarrow> bool" where
  "priority_ok B df i v =
     (if ''priority'' \<in> set (columns df)
      then (\<exists>c. field df i ''priority'' = Some c \<and> py_int B c = Inr v)
      else v = 0)"

definition outcome :: "builtins \<Rightarrow> dataframe \<Rightarrow> nat \<Rightarrow> parse_error + process" where
  "outcome B df i =
     row_to_process B (''priority'' \<in> set (columns (prepared df))) (iterrows (prepared df) ! i)"

lemma fill_cell_idem [simp]: "fill_cell (fill_cell c) = fill_cell c"
  by (simp add: fill_cell_def)

lemma fillna0_simps [simp]:
  "columns (fillna0 df) = columns df"
  "length (iterrows (fillna0 df)) = length (iterrows df)"
  by (simp_all add: fillna0_def)

lemma fillna0_nth:
  "i < length (iterrows df) \<Longrightarrow> (iterrows (fillna0 df) ! i) name = field df i name"
  by (simp add: fillna0_def field_def)

lemma fillna0_idem: "fillna0 (fillna0 df) = fillna0 df"
  by (simp add: fillna0_def fun_eq_iff option.map_comp comp_def)

lemma df_empty_fillna0 [simp]: "df_empty (fillna0 df) = df_empty df"
  by (simp add: df_empty_def fillna0_def)

lemma prepared_fillna0: "prepared (fillna0 df) = prepared df"
  by (simp add: prepared_def fillna0_idem)

lemma prepared_length [simp]: "length (iterrows (prepared df)) = length (iterrows df)"
  by (simp add: prepared_def Let_def insert_pid_def select_cols_def)

lemma prepared_priority [simp]:
  "(''priority'' \<in> set (columns (prepared df))) = (''priority'' \<in> set (columns df))"
  by (simp add: prepared_def Let_def insert_pid_def select_cols_def)

lemma prepared_nth:
  assumes "i < length (iterrows df)"
  shows "(iterrows (prepared df) ! i) ''arrival'' = field df i ''arrival''"
    and "(iterrows (prepared df) ! i) ''burst'' = field df i ''burst''"
    and "''priority'' \<in> set (columns df) \<Longrightarrow>
           (iterrows (prepared df) ! i) ''priority'' = field df i ''priority''"
    and "(iterrows (prepared df) ! i) ''pid'' =
           (if ''pid'' \<in> set (columns df) then field df i ''pid''
            else Some (CStr (''P'' @ str_of_nat (i + 1))))"
  using assms
  by (simp_all add: prepared_def Let_def insert_pid_def select_cols_def fillna0_nth
        restrict_map_def)

lemma wf_df_field:
  assumes "wf_df df" and "i < length (iterrows df)" and "name \<in> set (columns df)"
  shows "\<exists>c. field df i name = Some c"
proof -
  from assms(2) have "iterrows df ! i \<in> set (iterrows df)" by simp
  with assms(1) have "dom (iterrows df ! i) = set (columns df)" by (simp add: wf_df_def)
  with assms(3) obtain c where "(iterrows df ! i) name = Some c" by blast
  thus ?thesis by (simp add: field_def)
qed


text \<open>The row-level verdicts, by the cells of the row.\<close>

lemma reported_id_eq:
  assumes "i < length (iterrows df)"
    and "(iterrows (prepared df) ! i) ''pid'' = Some pc"
  shows "py_str B pc = reported_id B df i"
  using assms prepared_nth(4) [OF assms(1)]
  by (auto simp add: reported_id_def py_str_def split: if_splits)

lemma pid_cell:
  assumes "wf_df df" and "i < length (iterrows df)"
  shows "\<exists>pc. (iterrows (prepared df) ! i) ''pid'' = Some pc"
  using prepared_nth(4) [OF assms(2)] wf_df_field [OF assms, of "''pid''"] by auto

lemma outcome_not_an_integer:
  assumes "wf_df df" and "i < length (iterrows df)"
    and "field df i ''arrival'' = Some ac" and "field df i ''burst'' = Some bc"
    and "py_int B ac = Inl e \<or> (\<exists>a. py_int B ac = Inr a) \<and> py_int B bc = Inl e"
  shows "outcome B df i = Inl (wrap (reported_id B df i) e)"
proof -
  from pid_cell [OF assms(1,2)] obtain pc
    where pc: "(iterrows (prepared df) ! i) ''pid'' = Some pc" by blast
  note id = reported_id_eq [OF assms(2) pc]
  from assms(5) show ?thesis
    unfolding outcome_def row_to_process_def
    by (auto simp add: pc prepared_nth [OF assms(2)] assms(3,4) id)
qed

lemma outcome_priority_not_an_integer:
  assumes "wf_df df" and "i < length (iterrows df)"
    and "field df i ''arrival'' = Some ac" and "field df i ''burst'' = Some bc"
    and "py_int B ac = Inr a" and "py_int B bc = Inr b"
    and "''priority'' \<in> set (columns df)"
    and "field df i ''priority'' = Some qc" and "py_int B qc = Inl e"
  shows "outcome B df i = Inl (wrap (reported_id B df i) e)"
proof -
  from pid_cell [OF assms(1,2)] obtain pc
    where pc: "(iterrows (prepared df) ! i) ''pid'' = Some pc" by blast
  note id = reported_id_eq [OF assms(2) pc]
  show ?thesis
    unfolding outcome_def row_to_process_def
    by (simp add: pc prepared_nth [OF assms(2)] assms(3-9) id)
qed

lemma outcome_coerced:
  assumes "wf_df df" and "i < length (iterrows df)"
    and "field df i ''arrival'' = Some ac" and "field df i ''burst'' = Some bc"
    and "py_int B ac = Inr a" and "py_int B bc = Inr b"
    and "priority_ok B df i v"
  shows "outcome B df i =
           (if a < 0 then Inl (InvalidData (reported_id B df i) ArrivalNegative)
            else if b \<le> 0 then Inl (InvalidData (reported_id B df i) BurstNotPositive)
            else Inr \<lparr>pid = reported_id B df i, arrival = a, burst = b, priority = v\<rparr>)"
proof -
  from pid_cell [OF assms(1,2)] obtain pc
    where pc: "(iterrows (prepared df) ! i) ''pid'' = Some pc" by blast
  note id = reported_id_eq [OF assms(2) pc]
  from assms(7) show ?thesis
    unfolding outcome_def row_to_process_def priority_ok_def
    by (auto simp add: pc prepared_nth [OF assms(2)] assms(3-6) id split: if_splits)
qed

text \<open>The loop: the first failing row decides, and a list comes out only if no row fails.\<close>

lemma rows_to_procs_first_failure:
  assumes "i < length rs"
    and "\<forall>j<i. \<exists>p. row_to_process B hp (rs ! j) = Inr p"
    and "row_to_process B hp (rs ! i) = Inl e"
  shows "rows_to_procs B hp rs = Inl e"
  using assms
proof (induction rs arbitrary: i)
  case Nil
  thus ?case by simp
next
  case (Cons r rs)
  show ?case
  proof (cases i)
    case 0
    with Cons.prems(3) show ?thesis by simp
  next
    case (Suc k)
    from Cons.prems(2) Suc obtain p where p: "row_to_process B hp r = Inr p" by fastforce
    have "\<forall>j<k. \<exists>p. row_to_process B hp (rs ! j) = Inr p"
    proof (intro allI impI)
      fix j assume "j < k"
      hence "Suc j < i" using Suc by simp
      with Cons.prems(2) show "\<exists>p. row_to_process B hp (rs ! j) = Inr p" by fastforce
    qed
    moreover from Cons.prems Suc have "k < length rs" "row_to_process B hp (rs ! k) = Inl e"
      by simp_all
    ultimately have "rows_to_procs B hp rs = Inl e" using Cons.IH by blast
    with p show ?thesis by simp
  qed
qed

lemma rows_to_procs_accepts:
  "rows_to_procs B hp rs = Inr ps \<longleftrightarrow> map (row_to_process B hp) rs = map Inr ps"
proof (induction rs arbitrary: ps)
  case Nil
  show ?case by auto
next
  case (Cons r rs)
  show ?case
  proof (cases "row_to_process B hp r")
    case (Inl e)
    thus ?thesis by (cases ps) auto
  next
    case (Inr p)
    show ?thesis
    proof (cases "rows_to_procs B hp rs")
      case (Inl e)
      with Inr Cons.IH show ?thesis by (cases ps) auto
    next
      case r: (Inr qs)
      with Inr Cons.IH [of qs] Cons.IH show ?thesis by (cases ps) auto
    qed
  qed
qed

lemma parse_empty: "df_empty df \<Longrightarrow> parse_df_to_processes B df = Inr []"
  by (simp add: parse_df_to_processes_def)

lemma parse_missing_columns:
  assumes "\<not> df_empty df" and "[col \<leftarrow> required_cols. col \<notin> set (columns df)] \<noteq> []"
  shows "parse_df_to_processes B df =
           Inl (MissingColumns [col \<leftarrow> required_cols. col \<notin> set (columns df)])"
  using assms by (simp add: parse_df_to_processes_def Let_def)

lemma parse_rows:
  assumes "\<not> df_empty df" and "''arrival'' \<in> set (columns df)" and "''burst'' \<in> set (columns df)"
  shows "parse_df_to_processes B df =
           rows_to_procs B (''priority'' \<in> set (columns (prepared df))) (iterrows (prepared df))"
  using assms by (simp add: parse_df_to_processes_def Let_def required_cols_def)

lemma parse_first_failure:
  assumes "\<not> df_empty df" and "''arrival'' \<in> set (columns df)" and "''burst'' \<in> set (columns df)"
    and "i < length (iterrows df)"
    and "\<forall>j<i. \<exists>p. outcome B df j = Inr p"
    and "outcome B df i = Inl e"
  shows "parse_df_to_processes B df = Inl e"
  unfolding parse_rows [OF assms(1-3)]
  by (rule rows_to_procs_first_failure [where i = i])
     (use assms(4-6) in \<open>simp_all add: outcome_def\<close>)

lemma parse_accepts:
  assumes "\<not> df_empty df" and "''arrival'' \<in> set (columns df)" and "''burst'' \<in> set (columns df)"
  shows "parse_df_to_processes B df = Inr ps \<longleftrightarrow>
           length ps = length (iterrows df) \<and> (\<forall>i<length (iterrows df). outcome B df i = Inr (ps ! i))"
  unfolding parse_rows [OF assms] rows_to_procs_accepts
  by (auto simp add: list_eq_iff_nth_eq outcome_def)

lemma parse_fillna0: "parse_df_to_processes B (fillna0 df) = parse_df_to_processes B df"
  by (simp add: parse_df_to_processes_def prepared_fillna0 Let_def)

lemma outcome_zero_burst:
  assumes "i < length (iterrows df)" and "field df i ''burst'' = Some (CInt 0)"
  shows "outcome B df i \<noteq> Inr p"
  unfolding outcome_def row_to_process_def
  by (simp add: prepared_nth [OF assms(1)] assms(2) py_int_def
        split: option.splits sum.splits if_splits)

lemma str_of_nat_digits:
  "str_of_nat (Suc 0) = ''1''" "str_of_nat (Suc (Suc 0)) = ''2''"
  by code_simp+

lemma truncate_toward_zero:
  "(0 \<le> q \<longrightarrow> truncate q = \<lfloor>q\<rfloor>) \<and> (q \<le> 0 \<longrightarrow> truncate q = \<lceil>q\<rceil>)"
  by (auto simp add: truncate_def ceiling_def)

text \<open>
  Claim C10. Missing cells are replaced by 0 before any check: the function gives the same
  result on the table in which every missing cell is 0, and the loop sees 0 where a cell is
  missing. For row \<open>i\<close> of a non-empty table with the required columns: if its arrival
  cell is missing the row is treated as arriving at 0, so with a positive burst (and a
  readable priority) it is accepted with arrival 0; if its burst cell is missing the row
  is never accepted, no list is returned, and, when its arrival is readable and not
  negative, the error is the positive-burst rule under the row's id; a float cell is never
  refused by \<open>int()\<close>, which returns its value rounded toward zero, so a row with a float
  arrival or burst is judged by the truncated values. The verdict on a row becomes the
  result of the function when it is the first row that fails, and its process is the entry
  at its position when a list is returned.
\<close>

theorem missing_cells_become_zero:
  assumes "wf_df df" and "\<not> df_empty df"
    and "''arrival'' \<in> set (columns df)" and "''burst'' \<in> set (columns df)"
    and "i < length (iterrows df)"
  shows "parse_df_to_processes B (fillna0 df) = parse_df_to_processes B df \<and>
         (\<forall>name. (iterrows df ! i) name = Some CNaN \<longrightarrow> field df i name = Some (CInt 0)) \<and>
         ((iterrows df ! i) ''arrival'' = Some CNaN \<longrightarrow>
            (\<forall>bc b v. field df i ''burst'' = Some bc \<and> py_int B bc = Inr b \<and> 0 < b \<and>
                 priority_ok B df i v \<longrightarrow>
               outcome B df i =
                 Inr \<lparr>pid = reported_id B df i, arrival = 0, burst = b, priority = v\<rparr>)) \<and>
         ((iterrows df ! i) ''burst'' = Some CNaN \<longrightarrow>
            (\<forall>p. outcome B df i \<noteq> Inr p) \<and>
            (\<forall>ps. parse_df_to_processes B df \<noteq> Inr ps) \<and>
            (\<forall>ac a v. field df i ''arrival'' = Some ac \<and> py_int B ac = Inr a \<and> 0 \<le> a \<and>
                 priority_ok B df i v \<longrightarrow>
               outcome B df i = Inl (InvalidData (reported_id B df i) BurstNotPositive))) \<and>
         (\<forall>q. py_int B (CFloat q) = Inr (truncate q) \<and>
              (0 \<le> q \<longrightarrow> truncate q = \<lfloor>q\<rfloor>) \<and> (q \<le> 0 \<longrightarrow> truncate q = \<lceil>q\<rceil>)) \<and>
         (\<forall>q bc b v. field df i ''arrival'' = Some (CFloat q) \<and> field df i ''burst'' = Some bc \<and>
              py_int B bc = Inr b \<and> priority_ok B df i v \<longrightarrow>
            outcome B df i =
              (if truncate q < 0 then Inl (InvalidData (reported_id B df i) ArrivalNegative)
               else if b \<le> 0 then Inl (InvalidData (reported_id B df i) BurstNotPositive)
               else Inr \<lparr>pid = reported_id B df i, arrival = truncate q, burst = b,
                         priority = v\<rparr>)) \<and>
         (\<forall>q ac a v. field df i ''burst'' = Some (CFloat q) \<and> field df i ''arrival'' = Some ac \<and>
              py_int B ac = Inr a \<and> priority_ok B df i v \<longrightarrow>
            outcome B df i =
              (if a < 0 then Inl (InvalidData (reported_id B df i) ArrivalNegative)
               else if truncate q \<le> 0
                 then Inl (InvalidData (reported_id B df i) BurstNotPositive)
               else Inr \<lparr>pid = reported_id B df i, arrival = a, burst = truncate q,
                         priority = v\<rparr>)) \<and>
         ((\<forall>j<i. \<exists>p. outcome B df j = Inr p) \<longrightarrow>
            (\<forall>e. outcome B df i = Inl e \<longrightarrow> parse_df_to_processes B df = Inl e)) \<and>
         (\<forall>ps. parse_df_to_processes B df = Inr ps \<longrightarrow> outcome B df i = Inr (ps ! i))"
proof (intro conjI allI impI)
  show "parse_df_to_processes B (fillna0 df) = parse_df_to_processes B df"
    by (rule parse_fillna0)
next
  fix name assume "(iterrows df ! i) name = Some CNaN"
  thus "field df i name = Some (CInt 0)" by (simp add: field_def fill_cell_def)
next
  fix bc b v
  assume m: "(iterrows df ! i) ''arrival'' = Some CNaN"
    and h: "field df i ''burst'' = Some bc \<and> py_int B bc = Inr b \<and> 0 < b \<and> priority_ok B df i v"
  from m have a: "field df i ''arrival'' = Some (CInt 0)" by (simp add: field_def fill_cell_def)
  have "py_int B (CInt 0) = Inr 0" by (simp add: py_int_def)
  from outcome_coerced [OF assms(1,5) a _ this, of bc b v] h
  show "outcome B df i = Inr \<lparr>pid = reported_id B df i, arrival = 0, burst = b, priority = v\<rparr>"
    by simp
next
  fix p assume "(iterrows df ! i) ''burst'' = Some CNaN"
  hence "field df i ''burst'' = Some (CInt 0)" by (simp add: field_def fill_cell_def)
  from outcome_zero_burst [OF assms(5) this] show "outcome B df i \<noteq> Inr p" .
next
  fix ps assume "(iterrows df ! i) ''burst'' = Some CNaN"
  hence "field df i ''burst'' = Some (CInt 0)" by (simp add: field_def fill_cell_def)
  from outcome_zero_burst [OF assms(5) this] have "outcome B df i \<noteq> Inr (ps ! i)" .
  with assms(5) show "parse_df_to_processes B df \<noteq> Inr ps"
    unfolding parse_accepts [OF assms(2-4)] by blast
next
  fix ac a v
  assume m: "(iterrows df ! i) ''burst'' = Some CNaN"
    and h: "field df i ''arrival'' = Some ac \<and> py_int B ac = Inr a \<and> 0 \<le> a \<and> priority_ok B df i v"
  from m have b: "field df i ''burst'' = Some (CInt 0)" by (simp add: field_def fill_cell_def)
  have "py_int B (CInt 0) = Inr 0" by (simp add: py_int_def)
  from outcome_coerced [OF assms(1,5) _ b _ this, of ac a v] h
  show "outcome B df i = Inl (InvalidData (reported_id B df i) BurstNotPositive)"
    by simp
next
  fix q show "py_int B (CFloat q) = Inr (truncate q)" by (simp add: py_int_def)
next
  fix q :: rat assume "0 \<le> q"
  thus "truncate q = \<lfloor>q\<rfloor>" using truncate_toward_zero by blast
next
  fix q :: rat assume "q \<le> 0"
  thus "truncate q = \<lceil>q\<rceil>" using truncate_toward_zero by blast
next
  fix q bc b v
  assume h: "field df i ''arrival'' = Some (CFloat q) \<and> field df i ''burst'' = Some bc \<and>
              py_int B bc = Inr b \<and> priority_ok B df i v"
  have "py_int B (CFloat q) = Inr (truncate q)" by (simp add: py_int_def)
  from outcome_coerced [OF assms(1,5) _ _ this, of bc b v] h
  show "outcome B df i =
              (if truncate q < 0 then Inl (InvalidData (reported_id B df i) ArrivalNegative)
               else if b \<le> 0 then Inl (InvalidData (reported_id B df i) BurstNotPositive)
               else Inr \<lparr>pid = reported_id B df i, arrival = truncate q, burst = b,
                         priority = v\<rparr>)"
    by blast
next
  fix q ac a v
  assume h: "field df i ''burst'' = Some (CFloat q) \<and> field df i ''arrival'' = Some ac \<and>
              py_int B ac = Inr a \<and> priority_ok B df i v"
  have "py_int B (CFloat q) = Inr (truncate q)" by (simp add: py_int_def)
  from outcome_coerced [OF assms(1,5) _ _ _ this, of ac a v] h
  show "outcome B df i =
              (if a < 0 then Inl (InvalidData (reported_id B df i) ArrivalNegative)
               else if truncate q \<le> 0
                 then Inl (InvalidData (reported_id B df i) BurstNotPositive)
               else Inr \<lparr>pid = reported_id B df i, arrival = a, burst = truncate q,
                         priority = v\<rparr>)"
    by blast
next
  fix e
  assume "\<forall>j<i. \<exists>p. outcome B df j = Inr p" and "outcome B df i = Inl e"
  with parse_first_failure [OF assms(2-5)] show "parse_df_to_processes B df = Inl e" by blast
next
  fix ps assume "parse_df_to_processes B df = Inr ps"
  with assms(5) show "outcome B df i = Inr (ps ! i)"
    unfolding parse_accepts [OF assms(2-4)] by blast
qed


text \<open>
  A table of two rows without id and priority columns: the first row has no arrival and
  burst 2.5, the second has arrival 3.5 and no burst.
\<close>

definition missing_example :: dataframe where
  "missing_example =
     \<lparr>columns = [''arrival'', ''burst''],
      iterrows = [[''arrival'' \<mapsto> CNaN, ''burst'' \<mapsto> CFloat (5 / 2)],
                  [''arrival'' \<mapsto> CFloat (7 / 2), ''burst'' \<mapsto> CNaN]]\<rparr>"

theorem missing_cells_become_zero_witness:
  "\<forall>B. outcome B missing_example 0 =
          Inr \<lparr>pid = ''P1'', arrival = 0, burst = 2, priority = 0\<rparr> \<and>
       outcome B missing_example 1 = Inl (InvalidData ''P2'' BurstNotPositive) \<and>
       parse_df_to_processes B missing_example = Inl (InvalidData ''P2'' BurstNotPositive)"
proof
  fix B
  have wf: "wf_df missing_example"
    by (auto simp add: wf_df_def missing_example_def)
  have ne: "\<not> df_empty missing_example"
    by (simp add: df_empty_def missing_example_def)
  have cols: "''arrival'' \<in> set (columns missing_example)"
    "''burst'' \<in> set (columns missing_example)"
    by (simp_all add: missing_example_def)
  have len: "0 < length (iterrows missing_example)" "1 < length (iterrows missing_example)"
    by (simp_all add: missing_example_def)
  have id: "reported_id B missing_example 0 = ''P1''" "reported_id B missing_example 1 = ''P2''"
    by (simp_all add: reported_id_def missing_example_def str_of_nat_digits)
  have prio: "priority_ok B missing_example 0 0" "priority_ok B missing_example 1 0"
    by (simp_all add: priority_ok_def missing_example_def)
  have t: "truncate (5 / 2) = 2" "truncate (7 / 2) = 3"
    by (simp_all add: truncate_def floor_unique)
  have r0: "(iterrows missing_example ! 0) ''arrival'' = Some CNaN"
    "field missing_example 0 ''burst'' = Some (CFloat (5 / 2))"
    by (simp_all add: field_def fill_cell_def missing_example_def)
  have r1: "(iterrows missing_example ! 1) ''burst'' = Some CNaN"
    "field missing_example 1 ''arrival'' = Some (CFloat (7 / 2))"
    by (simp_all add: field_def fill_cell_def missing_example_def)
  have c: "py_int B (CFloat (5 / 2)) = Inr 2" "py_int B (CFloat (7 / 2)) = Inr 3"
    by (simp_all add: py_int_def t)
  note T0 = missing_cells_become_zero [OF wf ne cols len(1), of B]
  note T1 = missing_cells_become_zero [OF wf ne cols len(2), of B]
  from T0 r0 c(1) prio(1) have o0: "outcome B missing_example 0 =
      Inr \<lparr>pid = reported_id B missing_example 0, arrival = 0, burst = 2, priority = 0\<rparr>"
    by (metis zero_less_numeral)
  from T1 r1 c(2) prio(2) have o1: "outcome B missing_example 1 =
      Inl (InvalidData (reported_id B missing_example 1) BurstNotPositive)"
    by (metis zero_le_numeral)
  have "\<forall>j<1::nat. \<exists>p. outcome B missing_example j = Inr p" using o0 by simp
  with T1 o1 have "parse_df_to_processes B missing_example =
      Inl (InvalidData (reported_id B missing_example 1) BurstNotPositive)" by blast
  with o0 o1 show "outcome B missing_example 0 =
          Inr \<lparr>pid = ''P1'', arrival = 0, burst = 2, priority = 0\<rparr> \<and>
       outcome B missing_example 1 = Inl (InvalidData ''P2'' BurstNotPositive) \<and>
       parse_df_to_processes B missing_example = Inl (InvalidData ''P2'' BurstNotPositive)"
    by (simp only: id)
qed


text \<open>
  A table with one row: id P1, arrival -1 and an infinite burst, as the CSV line
  \<open>P1,-1,inf\<close> is read.
\<close>

definition overflow_example :: dataframe where
  "overflow_example =
     \<lparr>columns = [''pid'', ''arrival'', ''burst''],
      iterrows = [[''pid'' \<mapsto> CStr ''P1'', ''arrival'' \<mapsto> CInt (- 1),
                   ''burst'' \<mapsto> CInf False]]\<rparr>"

lemma overflow_example_wf: "wf_df overflow_example"
  by (auto simp add: wf_df_def overflow_example_def)

text \<open>
  Claim C7. The function is to fail with an error naming the process id and the violated
  rule for any row whose arrival coerces to a negative integer, whose burst coerces to a
  non-positive integer or whose field is not numeric. On the well-formed table above,
  whose only row has arrival -1, it does not: \<open>int()\<close> of the infinite burst raises
  \<open>OverflowError\<close> before the sign checks, the handler catches only \<open>ValueError\<close> and
  \<open>TypeError\<close>, and the exception leaves the function without the id of the row.
\<close>

theorem infinite_cell_escapes_handler:
  "\<not> df_empty overflow_example \<and>
   field overflow_example 0 ''arrival'' = Some (CInt (- 1)) \<and>
   parse_df_to_processes B overflow_example = Inl Overflow"
proof (intro conjI)
  show "\<not> df_empty overflow_example" by (simp add: df_empty_def overflow_example_def)
  show "field overflow_example 0 ''arrival'' = Some (CInt (- 1))"
    by (simp add: field_def fill_cell_def overflow_example_def)
  show "parse_df_to_processes B overflow_example = Inl Overflow"
    by (simp add: parse_df_to_processes_def df_empty_def required_cols_def prepared_def
          fillna0_def select_cols_def row_to_process_def py_int_def fill_cell_def wrap_def
          overflow_example_def restrict_map_def Let_def)
qed

end
